theory Spec2Isabelle
  imports Main "HOL-Library.Char_ord" "HOL-Library.Sublist"
begin

section \<open>Regular expressions as the scripts use them\<close>

text \<open>
  Both scripts hand their patterns to Python's \<^verbatim>\<open>re\<close> module (\<^verbatim>\<open>re.sub\<close>,
  \<^verbatim>\<open>re.finditer\<close>). The patterns only use literals, character classes, greedy
  repetition of a character class, optional groups, alternation and the two
  multi-line anchors, so the abstract syntax below has exactly these forms.
  A byte string and a decoded text are both a \<^typ>\<open>string\<close>; for text this covers the
  code points below 256.
\<close>

type_synonym cls = "char \<Rightarrow> bool"

datatype regex =
    Chr cls
  | Rep cls nat "nat option"
  | Seq regex regex
  | Alt regex regex
  | Opt regex
  | Eps
  | Bol
  | Eol

definition nl :: char where
  "nl = CHR 0x0A"

text \<open>
  A matcher state is the text still to be read together with a flag telling whether the
  position is at the start of a line (start of the text or right after a newline), which is
  what \<^verbatim>\<open>^\<close> under \<^verbatim>\<open>(?m)\<close> asks for.
\<close>

type_synonym mstate = "bool \<times> string"

text \<open>
  \<open>rep P m n\<close> is the greedy \<^verbatim>\<open>[..]{m,n}\<close> (\<open>n = None\<close> for no upper bound): the
  longest run is tried first, then shorter ones, as the backtracking engine does.
\<close>

fun rep :: "cls \<Rightarrow> nat \<Rightarrow> nat option \<Rightarrow> bool \<Rightarrow> string \<Rightarrow> mstate list" where
  "rep P m n b [] = (if m = 0 then [(b, [])] else [])"
| "rep P m n b (c # cs) =
     (if P c \<and> n \<noteq> Some 0
      then rep P (m - 1) (map_option (\<lambda>k. k - 1) n) (c = nl) cs else [])
     @ (if m = 0 then [(b, c # cs)] else [])"

text \<open>
  \<open>ms r st\<close> lists every state in which a match of \<open>r\<close> begun at \<open>st\<close> can end, in the
  order in which a backtracking matcher tries them; the head is the match Python reports.
\<close>

fun ms :: "regex \<Rightarrow> mstate \<Rightarrow> mstate list" where
  "ms (Chr P) (b, s) = (case s of [] \<Rightarrow> [] | c # cs \<Rightarrow> if P c then [(c = nl, cs)] else [])"
| "ms (Rep P m n) (b, s) = rep P m n b s"
| "ms (Seq r1 r2) st = concat (map (ms r2) (ms r1 st))"
| "ms (Alt r1 r2) st = ms r1 st @ ms r2 st"
| "ms (Opt r) st = ms r st @ [st]"
| "ms Eps st = [st]"
| "ms Bol (b, s) = (if b then [(b, s)] else [])"
| "ms Eol (b, s) = (case s of [] \<Rightarrow> [(b, s)] | c # cs \<Rightarrow> if c = nl then [(b, s)] else [])"

section \<open>What it means for a pattern to match\<close>

text \<open>
  The reading of a pattern that the claims use: \<open>accepts r b w rest\<close> says that the
  pattern \<open>r\<close> matches exactly the text \<open>w\<close>, when \<open>w\<close> begins at the start of a
  line iff \<open>b\<close>, and is followed by \<open>rest\<close>. Only the anchors look at \<open>b\<close> and
  \<open>rest\<close>.
\<close>

definition bol_after :: "bool \<Rightarrow> string \<Rightarrow> bool" where
  "bol_after b w = (if w = [] then b else last w = nl)"

fun accepts :: "regex \<Rightarrow> bool \<Rightarrow> string \<Rightarrow> string \<Rightarrow> bool" where
  "accepts (Chr P) b w rest = (\<exists>c. w = [c] \<and> P c)"
| "accepts (Rep P m n) b w rest =
     (list_all P w \<and> m \<le> length w \<and> (case n of None \<Rightarrow> True | Some k \<Rightarrow> length w \<le> k))"
| "accepts (Seq r1 r2) b w rest =
     (\<exists>u v. w = u @ v \<and> accepts r1 b u (v @ rest) \<and> accepts r2 (bol_after b u) v rest)"
| "accepts (Alt r1 r2) b w rest = (accepts r1 b w rest \<or> accepts r2 b w rest)"
| "accepts (Opt r) b w rest = (w = [] \<or> accepts r b w rest)"
| "accepts Eps b w rest = (w = [])"
| "accepts Bol b w rest = (w = [] \<and> b)"
| "accepts Eol b w rest = (w = [] \<and> (case rest of [] \<Rightarrow> True | c # cs \<Rightarrow> c = nl))"

text \<open>
  \<open>search r ma b s\<close> is one step of the scanner behind \<^verbatim>\<open>re.sub\<close> and
  \<^verbatim>\<open>re.finditer\<close>: the leftmost position at which \<open>r\<close> matches, with the text skipped
  before it, the matched text and the state after it. \<open>ma\<close> is the engine's
  \<^verbatim>\<open>must_advance\<close> flag, set after an empty match: at the first position an empty match
  is then not accepted.
\<close>

fun search :: "regex \<Rightarrow> bool \<Rightarrow> bool \<Rightarrow> string \<Rightarrow> (string \<times> string \<times> mstate) option" where
  "search r ma b s =
     (case find (\<lambda>(b', s'). ma \<longrightarrow> s' \<noteq> s) (ms r (b, s)) of
        Some (b', s') \<Rightarrow> Some ([], take (length s - length s') s, (b', s'))
      | None \<Rightarrow>
          (case s of
             [] \<Rightarrow> None
           | c # cs \<Rightarrow> map_option (\<lambda>(pre, x). (c # pre, x)) (search r False (c = nl) cs)))"


declare search.simps [simp del]

section \<open>The matcher finds exactly the matches\<close>

lemma search_Nil [simp]:
  "search r ma b [] =
     (case find (\<lambda>(b', s'). ma \<longrightarrow> s' \<noteq> []) (ms r (b, [])) of
        Some (b', s') \<Rightarrow> Some ([], [], (b', s'))
      | None \<Rightarrow> None)"
  by (subst search.simps) (simp split: option.splits)

lemma search_Cons [simp]:
  "search r ma b (c # cs) =
     (case find (\<lambda>(b', s'). ma \<longrightarrow> s' \<noteq> c # cs) (ms r (b, c # cs)) of
        Some (b', s') \<Rightarrow> Some ([], take (length (c # cs) - length s') (c # cs), (b', s'))
      | None \<Rightarrow> map_option (\<lambda>(pre, x). (c # pre, x)) (search r False (c = nl) cs))"
  by (subst search.simps) (simp split: option.splits)

lemma bol_after_Nil [simp]: "bol_after b [] = b"
  by (simp add: bol_after_def)

lemma bol_after_Cons [simp]: "bol_after b (c # w) = bol_after (c = nl) w"
  by (simp add: bol_after_def)

lemma bol_after_append [simp]: "bol_after b (u @ v) = bol_after (bol_after b u) v"
  by (induction u arbitrary: b) simp_all

lemma rep_iff:
  "(b', s') \<in> set (rep P m n b s) \<longleftrightarrow>
     (\<exists>w. s = w @ s' \<and> b' = bol_after b w \<and> list_all P w \<and> m \<le> length w \<and>
          (case n of None \<Rightarrow> True | Some k \<Rightarrow> length w \<le> k))"
proof (induction s arbitrary: m n b)
  case Nil
  then show ?case by (auto split: option.splits)
next
  case (Cons c cs)
  show ?case (is "?L \<longleftrightarrow> ?R")
  proof
    assume ?L
    then consider
        (step) "P c" "n \<noteq> Some 0"
          "(b', s') \<in> set (rep P (m - 1) (map_option (\<lambda>k. k - 1) n) (c = nl) cs)"
      | (stop) "m = 0" "b' = b" "s' = c # cs"
      by (auto split: if_splits)
    then show ?R
    proof cases
      case step
      from step(3) obtain w where w: "cs = w @ s'" "b' = bol_after (c = nl) w" "list_all P w"
        "m - 1 \<le> length w"
        "(case map_option (\<lambda>k. k - 1) n of None \<Rightarrow> True | Some k \<Rightarrow> length w \<le> k)"
        unfolding Cons.IH by blast
      have "c # cs = (c # w) @ s'" using w by simp
      moreover have "b' = bol_after b (c # w)" using w by simp
      moreover have "list_all P (c # w)" using w step by simp
      moreover have "m \<le> length (c # w)" using w by simp
      moreover have "(case n of None \<Rightarrow> True | Some k \<Rightarrow> length (c # w) \<le> k)"
        using w(5) step(2) by (cases n) auto
      ultimately show ?thesis by blast
    next
      case stop
      then show ?thesis by (intro exI [of _ "[]"]) (auto split: option.splits)
    qed
  next
    assume ?R
    then obtain w where w: "c # cs = w @ s'" "b' = bol_after b w" "list_all P w" "m \<le> length w"
      "(case n of None \<Rightarrow> True | Some k \<Rightarrow> length w \<le> k)" by blast
    show ?L
    proof (cases w)
      case Nil
      then show ?thesis using w by auto
    next
      case (Cons d w')
      then have d: "d = c" "cs = w' @ s'" using w by auto
      have "P c" "n \<noteq> Some 0" using w Cons d by auto
      moreover have "(b', s') \<in> set (rep P (m - 1) (map_option (\<lambda>k. k - 1) n) (c = nl) cs)"
        unfolding Cons.IH using w Cons d by (intro exI [of _ w']) (auto split: option.splits)
      ultimately show ?thesis by simp
    qed
  qed
qed

lemma ms_iff:
  "(b', s') \<in> set (ms r (b, s)) \<longleftrightarrow>
     (\<exists>w. s = w @ s' \<and> b' = bol_after b w \<and> accepts r b w s')"
proof (induction r arbitrary: b s b' s')
  case (Chr P)
  then show ?case by (cases s) auto
next
  case (Rep P m n)
  then show ?case by (simp add: rep_iff)
next
  case (Seq r1 r2)
  show ?case (is "?L \<longleftrightarrow> ?R")
  proof
    assume ?L
    then obtain b1 s1 where 1: "(b1, s1) \<in> set (ms r1 (b, s))" "(b', s') \<in> set (ms r2 (b1, s1))"
      by auto
    from 1(1) obtain u where u: "s = u @ s1" "b1 = bol_after b u" "accepts r1 b u s1"
      unfolding Seq.IH by blast
    from 1(2) obtain v where v: "s1 = v @ s'" "b' = bol_after b1 v" "accepts r2 b1 v s'"
      unfolding Seq.IH by blast
    show ?R using u v by (intro exI [of _ "u @ v"]) auto
  next
    assume ?R
    then obtain u v where uv: "s = (u @ v) @ s'" "b' = bol_after b (u @ v)"
      "accepts r1 b u (v @ s')" "accepts r2 (bol_after b u) v s'" by auto
    have "(bol_after b u, v @ s') \<in> set (ms r1 (b, s))"
      unfolding Seq.IH using uv by auto
    moreover have "(b', s') \<in> set (ms r2 (bol_after b u, v @ s'))"
      unfolding Seq.IH using uv by auto
    ultimately show ?L by force
  qed
next
  case (Alt r1 r2)
  then show ?case by auto
next
  case (Opt r)
  then show ?case by auto
next
  case Eps
  then show ?case by auto
next
  case Bol
  then show ?case by auto
next
  case Eol
  then show ?case by (cases s) auto
qed

lemma find_SomeD: "find P xs = Some x \<Longrightarrow> x \<in> set xs \<and> P x"
  by (induction xs) (auto split: if_splits)

lemma search_Some:
  assumes "search r ma b s = Some (pre, w, b', s')"
  shows "s = pre @ w @ s' \<and> b' = bol_after b (pre @ w) \<and> accepts r (bol_after b pre) w s'
           \<and> (ma \<and> pre = [] \<longrightarrow> w \<noteq> [])"
  using assms
proof (induction s arbitrary: ma b pre)
  case Nil
  then obtain x where x: "find (\<lambda>(b', s'). ma \<longrightarrow> s' \<noteq> []) (ms r (b, [])) = Some x"
    by (auto split: option.splits)
  then have "x \<in> set (ms r (b, []))" "case x of (b', s') \<Rightarrow> ma \<longrightarrow> s' \<noteq> []"
    by (auto dest: find_SomeD)
  with Nil x show ?case by (auto simp: ms_iff)
next
  case (Cons c cs)
  show ?case
  proof (cases "find (\<lambda>(b', s'). ma \<longrightarrow> s' \<noteq> c # cs) (ms r (b, c # cs))")
    case None
    with Cons.prems obtain pre' where p: "pre = c # pre'"
      "search r False (c = nl) cs = Some (pre', w, b', s')" by auto
    from Cons.IH [OF p(2)] p(1) show ?thesis by simp
  next
    case (Some x)
    obtain b1 s1 where x: "x = (b1, s1)" by (cases x)
    from Some x have in_ms: "(b1, s1) \<in> set (ms r (b, c # cs))" and adv: "ma \<longrightarrow> s1 \<noteq> c # cs"
      by (auto dest: find_SomeD)
    from in_ms obtain u where u: "c # cs = u @ s1" "b1 = bol_after b u" "accepts r b u s1"
      unfolding ms_iff by blast
    from Cons.prems Some x have res: "pre = []" "w = take (length (c # cs) - length s1) (c # cs)"
      "b' = b1" "s' = s1" by auto
    have "w = u" using res(2) u(1) by (metis append_eq_conv_conj length_append add_diff_cancel_right')
    then show ?thesis using res u adv by auto
  qed
qed

section \<open>Substitution and iteration over matches\<close>

text \<open>
  \<^verbatim>\<open>re.sub(pattern, repl, s)\<close> with a constant replacement: the text between matches is
  copied, each match is replaced, and the scan goes on right after the match. After an
  empty match the next search must advance.
\<close>

function re_sub_from :: "regex \<Rightarrow> string \<Rightarrow> bool \<Rightarrow> bool \<Rightarrow> string \<Rightarrow> string" where
  "re_sub_from r repl ma b s =
     (case search r ma b s of
        None \<Rightarrow> s
      | Some (pre, w, b', s') \<Rightarrow> pre @ repl @ re_sub_from r repl (w = []) b' s')"
  by pat_completeness auto
termination
proof (relation "measure (\<lambda>(r, repl, ma, b, s). 2 * length s + (if ma then 0 else 1))")
  show "wf (measure (\<lambda>(r, repl, ma, b, s). 2 * length s + (if ma then 0 else 1)))"
    by simp
next
  fix r :: regex and repl :: string and ma b :: bool and s :: string
    and x2 :: "string \<times> string \<times> mstate" and pre y w z b' s'
  assume "search r ma b s = Some x2" "(pre, y) = x2" "(w, z) = y" "(b', s') = z"
  then have "search r ma b s = Some (pre, w, b', s')" by simp
  from search_Some [OF this] have "s = pre @ w @ s'" "ma \<and> pre = [] \<longrightarrow> w \<noteq> []" by simp_all
  then show "((r, repl, w = [], b', s'), (r, repl, ma, b, s))
     \<in> measure (\<lambda>(r, repl, ma, b, s). 2 * length s + (if ma then 0 else 1))"
    by (cases pre; cases w) auto
qed

declare re_sub_from.simps [simp del]

definition re_sub :: "regex \<Rightarrow> string \<Rightarrow> string \<Rightarrow> string" where
  "re_sub r repl s = re_sub_from r repl False True s"

text \<open>
  \<^verbatim>\<open>re.finditer(pattern, s)\<close>: the spans \<open>(start, end)\<close> of the successive
  non-overlapping matches, found by the same scanner.
\<close>

function re_finditer_from :: "regex \<Rightarrow> nat \<Rightarrow> bool \<Rightarrow> bool \<Rightarrow> string \<Rightarrow> (nat \<times> nat) list" where
  "re_finditer_from r pos ma b s =
     (case search r ma b s of
        None \<Rightarrow> []
      | Some (pre, w, b', s') \<Rightarrow>
          (pos + length pre, pos + length pre + length w)
          # re_finditer_from r (pos + length pre + length w) (w = []) b' s')"
  by pat_completeness auto
termination
proof (relation "measure (\<lambda>(r, pos, ma, b, s). 2 * length s + (if ma then 0 else 1))")
  show "wf (measure (\<lambda>(r, pos, ma, b, s). 2 * length s + (if ma then 0 else 1)))"
    by simp
next
  fix r :: regex and pos :: nat and ma b :: bool and s :: string
    and x2 :: "string \<times> string \<times> mstate" and pre y w z b' s'
  assume "search r ma b s = Some x2" "(pre, y) = x2" "(w, z) = y" "(b', s') = z"
  then have "search r ma b s = Some (pre, w, b', s')" by simp
  from search_Some [OF this] have "s = pre @ w @ s'" "ma \<and> pre = [] \<longrightarrow> w \<noteq> []" by simp_all
  then show "((r, pos + length pre + length w, w = [], b', s'), (r, pos, ma, b, s))
     \<in> measure (\<lambda>(r, pos, ma, b, s). 2 * length s + (if ma then 0 else 1))"
    by (cases pre; cases w) auto
qed

declare re_finditer_from.simps [simp del]

definition re_finditer :: "regex \<Rightarrow> string \<Rightarrow> (nat \<times> nat) list" where
  "re_finditer r s = re_finditer_from r 0 False True s"

lemma find_always: "find (\<lambda>x. True) xs = (case xs of [] \<Rightarrow> None | x # _ \<Rightarrow> Some x)"
  by (cases xs) simp_all

lemma search_finds:
  assumes "s = pre @ m @ post" and "accepts r (bol_after b pre) m post"
  shows "search r False b s \<noteq> None"
  using assms
proof (induction pre arbitrary: b s)
  case Nil
  then have "(bol_after b m, post) \<in> set (ms r (b, s))"
    unfolding ms_iff by auto
  then have "ms r (b, s) \<noteq> []" by auto
  then show ?case
    by (subst search.simps) (auto simp: find_always case_prod_unfold split: list.splits)
next
  case (Cons c pre)
  then have s: "s = c # (pre @ m @ post)" by simp
  have "search r False (c = nl) (pre @ m @ post) \<noteq> None"
    using Cons.IH [of "pre @ m @ post" "c = nl"] Cons.prems(2) by simp
  then show ?case
    unfolding s by (auto simp: find_always case_prod_unfold split: list.splits option.splits)
qed

lemma re_finditer_empty: "re_finditer r s = [] \<longleftrightarrow> search r False True s = None"
  unfolding re_finditer_def
  by (subst re_finditer_from.simps) (auto split: option.splits)

section \<open>Character classes and pattern notation\<close>

definition in_range :: "char \<Rightarrow> char \<Rightarrow> cls" where
  "in_range lo hi c \<longleftrightarrow> lo \<le> c \<and> c \<le> hi"

text \<open>Case folding of \<^verbatim>\<open>(?i)\<close> on the letters the patterns contain.\<close>

definition ascii_lower :: "char \<Rightarrow> char" where
  "ascii_lower c = (if in_range CHR ''A'' CHR ''Z'' c then char_of (of_char c + (32::nat)) else c)"

definition seqs :: "regex list \<Rightarrow> regex" where
  "seqs rs = foldr Seq rs Eps"

text \<open>A literal, and a literal under \<^verbatim>\<open>(?i)\<close>.\<close>

definition lit :: "string \<Rightarrow> regex" where
  "lit s = seqs (map (\<lambda>c. Chr (\<lambda>x. x = c)) s)"

definition liti :: "string \<Rightarrow> regex" where
  "liti s = seqs (map (\<lambda>c. Chr (\<lambda>x. ascii_lower x = ascii_lower c)) s)"

text \<open>\<^verbatim>\<open>[..]+\<close> and \<^verbatim>\<open>[..]*\<close>.\<close>

definition many1 :: "cls \<Rightarrow> regex" where
  "many1 P = Rep P 1 None"

definition many :: "cls \<Rightarrow> regex" where
  "many P = Rep P 0 None"

definition is_digit :: cls where
  "is_digit c \<longleftrightarrow> in_range CHR ''0'' CHR ''9'' c"

definition is_alnum :: cls where
  "is_alnum c \<longleftrightarrow>
     in_range CHR ''a'' CHR ''z'' c \<or> in_range CHR ''A'' CHR ''Z'' c \<or> in_range CHR ''0'' CHR ''9'' c"

text \<open>\<^verbatim>\<open>\w\<close> and \<^verbatim>\<open>\s\<close> of a bytes pattern.\<close>

definition is_word :: cls where
  "is_word c \<longleftrightarrow> is_alnum c \<or> c = CHR ''_''"

definition is_space :: cls where
  "is_space c \<longleftrightarrow> c \<in> set [CHR '' '', CHR 0x09, CHR 0x0A, CHR 0x0D, CHR 0x0C, CHR 0x0B]"

text \<open>\<^verbatim>\<open>[_-]?\<close>\<close>

definition sep :: regex where
  "sep = Opt (Chr (\<lambda>c. c = CHR ''_'' \<or> c = CHR ''-''))"

section \<open>\<^verbatim>\<open>clean_repo.py\<close>\<close>

text \<open>\<^verbatim>\<open>[a-zA-Z0-9-_]\<close>, also written \<^verbatim>\<open>[a-zA-Z0-9_\-]\<close>, and \<^verbatim>\<open>[\w\-\.]\<close>.\<close>

definition alnum_dash :: cls where
  "alnum_dash c \<longleftrightarrow> is_alnum c \<or> c = CHR ''-'' \<or> c = CHR ''_''"

definition word_dash_dot :: cls where
  "word_dash_dot c \<longleftrightarrow> is_word c \<or> c = CHR ''-'' \<or> c = CHR ''.''"

text \<open>
  The ten entries of the module-level list \<^verbatim>\<open>patterns\<close>, each under the bytes pattern
  it renders, and then the list in its order.
\<close>

text \<open>\<^verbatim>\<open>eyJ[a-zA-Z0-9-_]+\.[a-zA-Z0-9-_]+\.[a-zA-Z0-9-_]+\<close>\<close>

definition p_jwt :: regex where
  "p_jwt = seqs [lit ''eyJ'', many1 alnum_dash, lit ''.'', many1 alnum_dash, lit ''.'',
                 many1 alnum_dash]"

text \<open>The class \<^verbatim>\<open>[a-f0-9]\<close>.\<close>

definition hex_digit :: cls where
  "hex_digit c \<longleftrightarrow> in_range CHR ''a'' CHR ''f'' c \<or> in_range CHR ''0'' CHR ''9'' c"

text \<open>\<^verbatim>\<open>[a-f0-9]{32,}\<close>\<close>

definition p_hex :: regex where
  "p_hex = Rep hex_digit 32 None"

text \<open>\<^verbatim>\<open>(?i)api[_-]?key[_-]?[\w\-\.]+\<close>\<close>

definition p_api_key :: regex where
  "p_api_key = seqs [liti ''api'', sep, liti ''key'', sep, many1 word_dash_dot]"

text \<open>\<^verbatim>\<open>(?i)secret[_-]?key[_-]?[\w\-\.]+\<close>\<close>

definition p_secret_key :: regex where
  "p_secret_key = seqs [liti ''secret'', sep, liti ''key'', sep, many1 word_dash_dot]"

text \<open>\<^verbatim>\<open>(?i)password[_-]?[\w\-\.]+\<close>\<close>

definition p_password :: regex where
  "p_password = seqs [liti ''password'', sep, many1 word_dash_dot]"

text \<open>\<^verbatim>\<open>(?i)token[_-]?[\w\-\.]+\<close>\<close>

definition p_token :: regex where
  "p_token = seqs [liti ''token'', sep, many1 word_dash_dot]"

text \<open>\<^verbatim>\<open>sk-[0-9a-zA-Z]{48}\<close>\<close>

definition p_sk :: regex where
  "p_sk = seqs [lit ''sk-'', Rep is_alnum 48 (Some 48)]"

text \<open>\<^verbatim>\<open>xox[p|b|o|a]-[0-9]{12}-[0-9]{12}-[0-9]{12}-[a-z0-9]{32}\<close>\<close>

definition p_slack :: regex where
  "p_slack = seqs [lit ''xox'', Chr (\<lambda>c. c \<in> set ''p|b|o|a''), lit ''-'',
                   Rep is_digit 12 (Some 12), lit ''-'', Rep is_digit 12 (Some 12), lit ''-'',
                   Rep is_digit 12 (Some 12), lit ''-'',
                   Rep (\<lambda>c. in_range CHR ''a'' CHR ''z'' c \<or> in_range CHR ''0'' CHR ''9'' c)
                     32 (Some 32)]"

text \<open>\<^verbatim>\<open>https?://[^/\s]+/x-[a-zA-Z0-9_\-]{24}\<close>\<close>

definition p_url_token :: regex where
  "p_url_token = seqs [lit ''http'', Opt (lit ''s''), lit ''://'',
                       many1 (\<lambda>c. \<not> (c = CHR ''/'' \<or> is_space c)),
                       lit ''/x-'', Rep alnum_dash 24 (Some 24)]"

text \<open>\<^verbatim>\<open>[a-zA-Z0-9_-]*:[a-zA-Z0-9_\-]+@[a-zA-Z0-9_\-]+\.[a-zA-Z0-9_\-]+\<close>\<close>

definition p_url_cred :: regex where
  "p_url_cred = seqs [many alnum_dash, lit '':'', many1 alnum_dash, lit ''@'', many1 alnum_dash,
                      lit ''.'', many1 alnum_dash]"

definition patterns :: "regex list" where
  "patterns = [p_jwt, p_hex, p_api_key, p_secret_key, p_password, p_token, p_sk, p_slack,
               p_url_token, p_url_cred]"

definition marker :: string where
  "marker = ''***REMOVED***''"

text \<open>
  \<^verbatim>\<open>clean_message\<close>: every pattern in turn, each on the result of the one before.
\<close>

definition clean_message :: "string \<Rightarrow> string" where
  "clean_message message = foldl (\<lambda>message pattern. re_sub pattern marker message) message patterns"

text \<open>
  \<^verbatim>\<open>clean_blob\<close> does the same to the \<^verbatim>\<open>data\<close> attribute of the blob it is given and
  leaves the blob's other attributes alone.
\<close>

record blob =
  data :: string

definition clean_blob :: "'a blob_scheme \<Rightarrow> 'a blob_scheme" where
  "clean_blob blob =
     foldl (\<lambda>blob pattern. blob\<lparr>data := re_sub pattern marker (data blob)\<rparr>) blob patterns"

section \<open>\<^verbatim>\<open>clean_git_history.py\<close>: the catalogue\<close>

text \<open>
  The scanner's patterns are text patterns. \<^verbatim>\<open>\w\<close> and \<^verbatim>\<open>\s\<close> are then the Unicode
  classes; these are their members below code point 256.
\<close>

definition is_uword :: cls where
  "is_uword c \<longleftrightarrow>
     is_word c
     \<or> c \<in> set [CHR 0xAA, CHR 0xB2, CHR 0xB3, CHR 0xB5, CHR 0xB9, CHR 0xBA, CHR 0xBC, CHR 0xBD,
                CHR 0xBE]
     \<or> (in_range (CHR 0xC0) (CHR 0xFF) c \<and> c \<noteq> CHR 0xD7 \<and> c \<noteq> CHR 0xF7)"

definition is_uspace :: cls where
  "is_uspace c \<longleftrightarrow>
     in_range (CHR 0x09) (CHR 0x0D) c \<or> in_range (CHR 0x1C) (CHR 0x20) c
     \<or> c = CHR 0x85 \<or> c = CHR 0xA0"

text \<open>\<^verbatim>\<open>[\w\-]\<close>\<close>

definition uword_dash :: cls where
  "uword_dash c \<longleftrightarrow> is_uword c \<or> c = CHR ''-''"

definition dq :: string where
  "dq = [CHR 0x22]"

definition sq :: string where
  "sq = [CHR 0x27]"

definition bs :: string where
  "bs = [CHR 0x5C]"

text \<open>\<^verbatim>\<open>["\']?\<close>, as an expression and as the text the script stores.\<close>

definition quote :: regex where
  "quote = Opt (Chr (\<lambda>c. c = CHR 0x22 \<or> c = CHR 0x27))"

definition t_quote :: string where
  "t_quote = ''['' @ dq @ bs @ sq @ '']?''"

text \<open>
  Nine patterns end in \<^verbatim>\<open>["\']?\s*(?::|=)\s*["\']?VALUE["\']?\<close>, the value being
  \<^verbatim>\<open>[\w\-]{n,}\<close> in eight of them.
\<close>

definition assigned :: "regex \<Rightarrow> regex" where
  "assigned v =
     seqs [quote, many is_uspace, Alt (lit '':'') (lit ''=''), many is_uspace, quote, v, quote]"

definition t_assigned :: "string \<Rightarrow> string" where
  "t_assigned v = t_quote @ bs @ ''s*(?::|=)'' @ bs @ ''s*'' @ t_quote @ v @ t_quote"

definition val :: "nat \<Rightarrow> regex" where
  "val n = Rep uword_dash n None"

definition t_val :: "string \<Rightarrow> string" where
  "t_val n = ''['' @ bs @ ''w'' @ bs @ ''-]{'' @ n @ '',}''"

text \<open>
  \<^verbatim>\<open>self.sensitive_patterns\<close>, in its order: each pattern as the string the script
  stores (it is what a finding prints) and as the expression that string denotes.
\<close>

definition sensitive_patterns :: "(string \<times> regex) list" where
  "sensitive_patterns =
    [(''(?i)api[_-]?key'' @ t_assigned (t_val ''16''),
      seqs [liti ''api'', sep, liti ''key'', assigned (val 16)]),
     (''(?i)api[_-]?secret'' @ t_assigned (t_val ''16''),
      seqs [liti ''api'', sep, liti ''secret'', assigned (val 16)]),
     (''(?i)openai[_-]?api[_-]?key'' @ t_assigned (''sk-['' @ bs @ ''w'' @ bs @ ''-]+''),
      seqs [liti ''openai'', sep, liti ''api'', sep, liti ''key'',
            assigned (Seq (liti ''sk-'') (many1 uword_dash))]),
     (''(?i)gemini[_-]?api[_-]?key'' @ t_assigned (t_val ''16''),
      seqs [liti ''gemini'', sep, liti ''api'', sep, liti ''key'', assigned (val 16)]),
     (''(?i)congress[_-]?api[_-]?key'' @ t_assigned (t_val ''16''),
      seqs [liti ''congress'', sep, liti ''api'', sep, liti ''key'', assigned (val 16)]),
     (''(?i)supabase[_-]?(?:url|key)'' @ t_assigned (t_val ''16''),
      seqs [liti ''supabase'', sep, Alt (liti ''url'') (liti ''key''), assigned (val 16)]),
     (''(?i)token'' @ t_assigned (t_val ''16''),
      seqs [liti ''token'', assigned (val 16)]),
     (''(?i)secret'' @ t_assigned (t_val ''16''),
      seqs [liti ''secret'', assigned (val 16)]),
     (''(?i)password'' @ t_assigned (t_val ''8''),
      seqs [liti ''password'', assigned (val 8)]),
     (''(?i)VITE_['' @ bs @ ''w_]*KEY['' @ bs @ ''w_]*='' @ t_quote @ t_val ''8'' @ t_quote,
      seqs [liti ''VITE_'', many is_uword, liti ''KEY'', many is_uword, lit ''='', quote, val 8,
            quote]),
     (''(?i)VITE_['' @ bs @ ''w_]*SECRET['' @ bs @ ''w_]*='' @ t_quote @ t_val ''8'' @ t_quote,
      seqs [liti ''VITE_'', many is_uword, liti ''SECRET'', many is_uword, lit ''='', quote, val 8,
            quote]),
     (''(?i)VITE_['' @ bs @ ''w_]*TOKEN['' @ bs @ ''w_]*='' @ t_quote @ t_val ''8'' @ t_quote,
      seqs [liti ''VITE_'', many is_uword, liti ''TOKEN'', many is_uword, lit ''='', quote, val 8,
            quote]),
     (''(?i)https?://[^:'' @ bs @ ''s]+:[^@'' @ bs @ ''s]+@[^'' @ bs @ ''s]+'',
      seqs [liti ''http'', Opt (liti ''s''), lit ''://'',
            many1 (\<lambda>c. \<not> (c = CHR '':'' \<or> is_uspace c)), lit '':'',
            many1 (\<lambda>c. \<not> (c = CHR ''@'' \<or> is_uspace c)), lit ''@'',
            many1 (\<lambda>c. \<not> is_uspace c)]),
     (''(?m)^'' @ bs @ ''s*(?:export'' @ bs @ ''s+)?['' @ bs @ ''w_]+=.+$'',
      seqs [Bol, many is_uspace, Opt (seqs [lit ''export'', many1 is_uspace]), many1 is_uword,
            lit ''='', many1 (\<lambda>c. c \<noteq> nl), Eol])]"

definition sensitive_files :: "string list" where
  "sensitive_files =
    [''.env'', ''.env.local'', ''.env.development'', ''.env.production'', ''.env.staging'',
     ''credentials.json'', ''config.json'', ''secrets.json'', ''*.key'', ''*.pem'', ''*.pfx'',
     ''*.p12'', ''*.keystore'']"

section \<open>\<^verbatim>\<open>clean_git_history.py\<close>: the world outside the script\<close>

text \<open>
  The script talks to git, the file system and the terminal. A \<open>world\<close> says how each
  request ends: \<^verbatim>\<open>subprocess.check_output\<close> returns the program's output or raises
  (\<^verbatim>\<open>CalledProcessError\<close> on a non-zero exit status), \<^verbatim>\<open>os.makedirs\<close> returns or
  raises, \<^verbatim>\<open>subprocess.run\<close> without \<^verbatim>\<open>check\<close> returns the exit status or raises when
  the program cannot be started, and \<^verbatim>\<open>input\<close> reads the next typed line or raises at end
  of input. The order in which Python iterates a set of strings follows the hashes of the
  strings, which differ from run to run; \<open>set_order\<close> gives that order for a set whose
  members were added in the order of the list it is applied to. What the script does to the
  world is recorded as a list of events, in order.
\<close>

datatype exn = CalledProcessError | OSError | UnicodeDecodeError | EOFError

datatype event =
    Print string
  | CheckOutput "string list"
  | Makedirs string
  | Run "string list" "string option"
  | Input string

record world =
  check_output :: "string list \<Rightarrow> exn + string"
  makedirs :: "string \<Rightarrow> exn option"
  run :: "string list \<Rightarrow> string option \<Rightarrow> exn + int"
  typed :: "string list"
  set_order :: "string list \<Rightarrow> string list"

text \<open>\<^verbatim>\<open>print(s)\<close> writes \<open>s\<close> and a newline.\<close>

definition println :: "string \<Rightarrow> event" where
  "println s = Print (s @ [nl])"

text \<open>Decimal digits of a number, as an f-string formats it.\<close>

fun decimal :: "nat \<Rightarrow> string" where
  "decimal n =
     (if n < 10 then [char_of (48 + n)] else decimal (n div 10) @ [char_of (48 + n mod 10)])"

text \<open>\<^verbatim>\<open>str.lower\<close>, \<^verbatim>\<open>str.strip\<close>, \<^verbatim>\<open>str.splitlines\<close> and \<^verbatim>\<open>str.join\<close>.\<close>

definition py_lower :: "char \<Rightarrow> char" where
  "py_lower c =
     (if in_range CHR ''A'' CHR ''Z'' c \<or> (in_range (CHR 0xC0) (CHR 0xDE) c \<and> c \<noteq> CHR 0xD7)
      then char_of (of_char c + (32::nat)) else c)"

definition lower :: "string \<Rightarrow> string" where
  "lower s = map py_lower s"

definition strip :: "string \<Rightarrow> string" where
  "strip s = rev (dropWhile is_uspace (rev (dropWhile is_uspace s)))"

definition is_linebreak :: cls where
  "is_linebreak c \<longleftrightarrow>
     in_range (CHR 0x0A) (CHR 0x0D) c \<or> in_range (CHR 0x1C) (CHR 0x1E) c \<or> c = CHR 0x85"

fun splitlines_from :: "string \<Rightarrow> string \<Rightarrow> string list" where
  "splitlines_from line [] = (if line = [] then [] else [line])"
| "splitlines_from line (c # cs) =
     (if c = CHR 0x0D \<and> cs \<noteq> [] \<and> hd cs = CHR 0x0A then line # splitlines_from [] (tl cs)
      else if is_linebreak c then line # splitlines_from [] cs
      else splitlines_from (line @ [c]) cs)"

definition splitlines :: "string \<Rightarrow> string list" where
  "splitlines s = splitlines_from [] s"

fun join :: "string \<Rightarrow> string list \<Rightarrow> string" where
  "join glue [] = []"
| "join glue [x] = x"
| "join glue (x # y # ys) = x @ glue @ join glue (y # ys)"

section \<open>\<^verbatim>\<open>clean_git_history.py\<close>: scanning\<close>

text \<open>
  \<^verbatim>\<open>found_sensitive\<close> is a Python set of strings. It is modelled by the list of its
  distinct members in the order in which they were first added. Where the script iterates
  over the set, the order of the iteration is taken from the world.
\<close>

definition set_add :: "'a \<Rightarrow> 'a list \<Rightarrow> 'a list" where
  "set_add x xs = (if x \<in> set xs then xs else xs @ [x])"

definition finding :: "string \<Rightarrow> string \<Rightarrow> string" where
  "finding commit_hash pattern = ''['' @ commit_hash @ ''] Found pattern: '' @ pattern"

text \<open>The two nested loops of \<^verbatim>\<open>scan_commit\<close> over the patterns and their matches.\<close>

definition scan_text :: "string \<Rightarrow> string \<Rightarrow> string list" where
  "scan_text commit_hash diff =
     foldl (\<lambda>found (pattern, r).
              foldl (\<lambda>found match. set_add (finding commit_hash pattern) found)
                found (re_finditer r diff))
       [] sensitive_patterns"

definition scan_commit :: "world \<Rightarrow> string \<Rightarrow> event list \<times> (exn + string list)" where
  "scan_commit w commit_hash =
     (case check_output w [''git'', ''show'', commit_hash] of
        Inr diff \<Rightarrow>
          ([CheckOutput [''git'', ''show'', commit_hash]], Inr (scan_text commit_hash diff))
      | Inl e \<Rightarrow>
          if e = CalledProcessError
          then ([CheckOutput [''git'', ''show'', commit_hash],
                 println (''Error scanning commit '' @ commit_hash)], Inr [])
          else ([CheckOutput [''git'', ''show'', commit_hash]], Inl e))"

text \<open>
  The loop of \<^verbatim>\<open>scan_history\<close>; \<open>i\<close> counts from 1 as \<^verbatim>\<open>enumerate(commits, 1)\<close> does.
  \<^verbatim>\<open>all_findings.extend(findings)\<close> iterates over the set that \<^verbatim>\<open>scan_commit\<close>
  returned. An exception out of \<^verbatim>\<open>scan_commit\<close> ends the loop.
\<close>

fun scan_loop ::
  "world \<Rightarrow> nat \<Rightarrow> nat \<Rightarrow> string list \<Rightarrow> string list \<Rightarrow> event list \<times> (exn + string list)"
where
  "scan_loop w total_commits i all_findings [] = ([], Inr all_findings)"
| "scan_loop w total_commits i all_findings (commit # commits) =
     (case scan_commit w commit of
        (ev, Inl e) \<Rightarrow> (ev, Inl e)
      | (ev, Inr findings) \<Rightarrow>
          (case scan_loop w total_commits (i + 1)
                  (if findings \<noteq> [] then all_findings @ set_order w findings
                   else all_findings) commits of
             (ev', r) \<Rightarrow>
               (ev @ [Print ([CHR 0x0D] @ ''Scanning commits: '' @ decimal i @ ''/''
                              @ decimal total_commits)] @ ev', r)))"

definition scan_history :: "world \<Rightarrow> event list \<times> (exn + string list)" where
  "scan_history w =
     (case check_output w [''git'', ''log'', ''--format=%H''] of
        Inl e \<Rightarrow>
          ([println ''Scanning Git history for sensitive data...'',
            CheckOutput [''git'', ''log'', ''--format=%H'']], Inl e)
      | Inr out \<Rightarrow>
          (case scan_loop w (length (splitlines out)) 1 [] (splitlines out) of
             (ev, Inl e) \<Rightarrow>
               ([println ''Scanning Git history for sensitive data...'',
                 CheckOutput [''git'', ''log'', ''--format=%H'']] @ ev, Inl e)
           | (ev, Inr all_findings) \<Rightarrow>
               ([println ''Scanning Git history for sensitive data...'',
                 CheckOutput [''git'', ''log'', ''--format=%H'']] @ ev
                @ [println ([nl] @ ''Scan complete!'')], Inr all_findings)))"

section \<open>\<^verbatim>\<open>clean_git_history.py\<close>: cleaning\<close>

text \<open>The commands \<^verbatim>\<open>clean_history\<close> builds.\<close>

definition date_cmd :: "string list" where
  "date_cmd = [''date'', ''+%Y%m%d_%H%M%S'']"

definition bundle_cmd :: "string \<Rightarrow> string list" where
  "bundle_cmd backup_dir =
     [''git'', ''bundle'', ''create'', backup_dir @ ''/backup.bundle'', ''--all'']"

definition sensitive_files_arg :: string where
  "sensitive_files_arg = join '' '' sensitive_files"

definition remove_files_cmd :: "string list" where
  "remove_files_cmd =
     [''git'', ''filter-repo'', ''--force'', ''--invert-paths'', ''--paths'', sensitive_files_arg]"

definition replace_text_cmd :: "string list" where
  "replace_text_cmd = [''git'', ''filter-repo'', ''--force'', ''--replace-text'', ''-'']"

definition replace_text_input :: "string \<Rightarrow> string" where
  "replace_text_input pattern = pattern @ ''===>REMOVED_SENSITIVE_DATA'' @ [nl]"

text \<open>
  After the backup directory has been made the function is a straight line of
  \<^verbatim>\<open>print\<close> and \<^verbatim>\<open>subprocess.run\<close> calls. No call looks at the exit status it gets; a
  call that raises ends the function.
\<close>

datatype action = Say string | Call "string list" "string option"

fun perform :: "world \<Rightarrow> action list \<Rightarrow> event list \<times> (exn + unit)" where
  "perform w [] = ([], Inr ())"
| "perform w (Say s # rest) = (case perform w rest of (ev, r) \<Rightarrow> (println s # ev, r))"
| "perform w (Call args stdin # rest) =
     (case run w args stdin of
        Inl e \<Rightarrow> ([Run args stdin], Inl e)
      | Inr status \<Rightarrow> (case perform w rest of (ev, r) \<Rightarrow> (Run args stdin # ev, r)))"

definition clean_history :: "world \<Rightarrow> event list \<times> (exn + unit)" where
  "clean_history w =
     (case check_output w date_cmd of
        Inl e \<Rightarrow> ([println ''Creating backup of current state...'', CheckOutput date_cmd], Inl e)
      | Inr out \<Rightarrow>
          (case makedirs w (''git_backup_'' @ strip out) of
             Some e \<Rightarrow>
               ([println ''Creating backup of current state...'', CheckOutput date_cmd,
                 Makedirs (''git_backup_'' @ strip out)], Inl e)
           | None \<Rightarrow>
               (case perform w
                       ([Call (bundle_cmd (''git_backup_'' @ strip out)) None,
                         Say ([nl] @ ''Cleaning sensitive files from history...''),
                         Call remove_files_cmd None,
                         Say ([nl] @ ''Removing sensitive data patterns...'')]
                        @ map (\<lambda>(pattern, r). Call replace_text_cmd
                                                  (Some (replace_text_input pattern)))
                            sensitive_patterns) of
                  (ev, r) \<Rightarrow>
                    ([println ''Creating backup of current state...'', CheckOutput date_cmd,
                      Makedirs (''git_backup_'' @ strip out)] @ ev, r))))"

section \<open>\<^verbatim>\<open>clean_git_history.py\<close>: the command line\<close>

definition banner :: "event list" where
  "banner =
     [println ''Git History Cleaner'', println ''=================='',
      println ([nl] @ ''This script will:''),
      println ''1. Scan your Git history for sensitive data'',
      println ''2. Create a backup of your current repository'',
      println ''3. Clean sensitive data from the history'',
      println ([nl] @ ''Warning: This will rewrite your Git history!'')]"

definition proceed_prompt :: string where
  "proceed_prompt = [nl] @ ''Do you want to proceed? (yes/no): ''"

definition clean_prompt :: string where
  "clean_prompt = [nl] @ ''Do you want to clean the repository? (yes/no): ''"

definition report :: "string list \<Rightarrow> event list" where
  "report findings =
     println ([nl] @ ''Found sensitive data in the following commits:'') # map println findings"

definition advice :: "event list" where
  "advice =
     [println ([nl] @ ''Repository cleaned! Please:''), println ''1. Review the changes'',
      println ''2. Force push to remote: git push origin --force --all'',
      println ''3. Update all sensitive credentials that were exposed'']"

definition main :: "world \<Rightarrow> event list \<times> (exn + unit)" where
  "main w =
     (case typed w of
        [] \<Rightarrow> (banner @ [Input proceed_prompt], Inl EOFError)
      | response # later \<Rightarrow>
          if lower response \<noteq> ''yes''
          then (banner @ [Input proceed_prompt, println ''Operation cancelled.''], Inr ())
          else
            (case scan_history w of
               (ev, Inl e) \<Rightarrow> (banner @ [Input proceed_prompt] @ ev, Inl e)
             | (ev, Inr findings) \<Rightarrow>
                 if findings \<noteq> []
                 then
                   (case later of
                      [] \<Rightarrow>
                        (banner @ [Input proceed_prompt] @ ev @ report findings
                         @ [Input clean_prompt], Inl EOFError)
                    | response2 # _ \<Rightarrow>
                        if lower response2 = ''yes''
                        then
                          (case clean_history w of
                             (ev', Inl e) \<Rightarrow>
                               (banner @ [Input proceed_prompt] @ ev @ report findings
                                @ [Input clean_prompt] @ ev', Inl e)
                           | (ev', Inr u) \<Rightarrow>
                               (banner @ [Input proceed_prompt] @ ev @ report findings
                                @ [Input clean_prompt] @ ev' @ advice, Inr ()))
                        else
                          (banner @ [Input proceed_prompt] @ ev @ report findings
                           @ [Input clean_prompt, println ''Cleaning cancelled.''], Inr ()))
                 else
                   (banner @ [Input proceed_prompt] @ ev
                    @ [println ([nl] @ ''No sensitive data found in Git history.'')], Inr ())))"

text \<open>
  The script ends with \<^verbatim>\<open>main()\<close> and never calls \<^verbatim>\<open>sys.exit\<close>: the interpreter exits
  with status 0 when \<^verbatim>\<open>main\<close> returns and with status 1 when an exception escapes it.
\<close>

definition exit_status :: "exn + unit \<Rightarrow> nat" where
  "exit_status r = (case r of Inl e \<Rightarrow> 1 | Inr u \<Rightarrow> 0)"

section \<open>Worlds for the examples\<close>

text \<open>
  A small repository: \<open>commits\<close> lists the commit ids that \<^verbatim>\<open>git log\<close> prints, each with
  what \<^verbatim>\<open>git show\<close> does for it; \<^verbatim>\<open>date\<close> and \<^verbatim>\<open>os.makedirs\<close> succeed; every
  \<^verbatim>\<open>subprocess.run\<close> starts its program and gets the exit status \<open>status\<close>; \<open>lines\<close> is
  what the user types; a set is iterated from the member added last to the one added first.
\<close>

definition example_world :: "(string \<times> (exn + string)) list \<Rightarrow> int \<Rightarrow> string list \<Rightarrow> world" where
  "example_world commits status lines =
     \<lparr>check_output =
        (\<lambda>args. if args = [''git'', ''log'', ''--format=%H'']
                then Inr (concat (map (\<lambda>(h, shown). h @ [nl]) commits))
                else if args = date_cmd then Inr (''20240101_120000'' @ [nl])
                else if length args = 3 \<and> take 2 args = [''git'', ''show'']
                then (case map_of commits (args ! 2) of
                        Some shown \<Rightarrow> shown
                      | None \<Rightarrow> Inl CalledProcessError)
                else Inl OSError),
      makedirs = (\<lambda>d. None),
      run = (\<lambda>args stdin. Inr status),
      typed = lines,
      set_order = rev\<rparr>"

section \<open>Properties of the scanner\<close>

lemma set_add_again: "foldl (\<lambda>found match. set_add x found) found spans
    = (if spans = [] then found else set_add x found)"
proof (induction spans arbitrary: found)
  case Nil
  then show ?case by simp
next
  case (Cons m spans)
  have "set_add x (set_add x found) = set_add x found"
    by (simp add: set_add_def)
  with Cons show ?case by simp
qed

lemma finding_inject: "finding h t = finding h t' \<longleftrightarrow> t = t'"
  by (simp add: finding_def)

lemma scan_fold:
  assumes "distinct (map fst ps)" and "\<And>t r. (t, r) \<in> set ps \<Longrightarrow> finding h t \<notin> set acc"
  shows "foldl (\<lambda>found (pattern, r).
              foldl (\<lambda>found match. set_add (finding h pattern) found) found (re_finditer r d))
           acc ps
         = acc @ map (\<lambda>(t, r). finding h t) (filter (\<lambda>(t, r). re_finditer r d \<noteq> []) ps)"
  using assms
proof (induction ps arbitrary: acc)
  case Nil
  then show ?case by simp
next
  case (Cons p ps)
  obtain t r where p: "p = (t, r)" by (cases p)
  let ?acc = "if re_finditer r d = [] then acc else acc @ [finding h t]"
  have "set_add (finding h t) acc = acc @ [finding h t]"
    using Cons.prems(2) [of t r] p by (simp add: set_add_def)
  then have step:
    "foldl (\<lambda>found match. set_add (finding h t) found) acc (re_finditer r d) = ?acc"
    by (simp add: set_add_again)
  have dist: "distinct (map fst ps)" using Cons.prems(1) by simp
  have fresh: "finding h t' \<notin> set ?acc" if "(t', r') \<in> set ps" for t' r'
  proof -
    have "t' \<noteq> t" using that Cons.prems(1) p by force
    moreover have "finding h t' \<notin> set acc" using Cons.prems(2) [of t' r'] that by simp
    ultimately show ?thesis by (simp add: finding_inject)
  qed
  show ?case
    using Cons.IH [of ?acc, OF dist fresh] step p by simp
qed

lemma distinct_patterns: "distinct (map fst sensitive_patterns)"
  by code_simp

lemma scan_text_eq:
  "scan_text h d
     = map (\<lambda>(t, r). finding h t) (filter (\<lambda>(t, r). re_finditer r d \<noteq> []) sensitive_patterns)"
  unfolding scan_text_def using scan_fold [OF distinct_patterns, of h "[]" d] by simp


text \<open>
  On the text they are given the two loops miss nothing: whenever some part \<open>m\<close> of the
  text that \<^verbatim>\<open>git show\<close> printed is, in its place in the text, accepted by a catalogue
  pattern, the string \<^verbatim>\<open>[<commit>] Found pattern: <pattern>\<close> is in the set that
  \<^verbatim>\<open>scan_commit\<close> returns.
\<close>

lemma scan_text_complete:
  assumes "check_output w [''git'', ''show'', commit_hash] = Inr diff"
    and "(pattern, r) \<in> set sensitive_patterns"
    and "diff = pre @ m @ post"
    and "accepts r (bol_after True pre) m post"
  shows "\<exists>found. snd (scan_commit w commit_hash) = Inr found
           \<and> ''['' @ commit_hash @ ''] Found pattern: '' @ pattern \<in> set found"
proof -
  have "re_finditer r diff \<noteq> []"
    using search_finds [OF assms(3,4)] by (simp add: re_finditer_empty)
  then have "finding commit_hash pattern \<in> set (scan_text commit_hash diff)"
    unfolding scan_text_eq using assms(2) by force
  then show ?thesis
    using assms(1) by (simp add: scan_commit_def finding_def)
qed

text \<open>
  The text is not the content of the commit, though. What \<^verbatim>\<open>git show\<close> prints for a
  commit that adds a file \<^verbatim>\<open>.env\<close> holding the single line \<^verbatim>\<open>FOO=bar\<close>: the header of the
  commit, its message, and the diff of the file, where the line of the file follows a
  \<^verbatim>\<open>+\<close>.
\<close>

definition show_of_added_env :: string where
  "show_of_added_env =
     concat (map (\<lambda>line. line @ [nl])
       [''commit 1a2b3c4d5e6f7a8b9c0d1e2f3a4b5c6d7e8f9a0b'',
        ''Author: A U Thor <author@example.com>'',
        ''Date:   Mon Jan 1 12:00:00 2024 +0000'',
        [],
        ''    add env'',
        [],
        ''diff --git a/.env b/.env'',
        ''new file mode 100644'',
        ''index 0000000..c075a74'',
        ''--- /dev/null'',
        ''+++ b/.env'',
        ''@@ -0,0 +1 @@'',
        ''+FOO=bar''])"

text \<open>
  Claim C4 fails of the code. The last pattern of the catalogue, listed there under
  \<^verbatim>\<open># Common Environment File Patterns\<close>, matches the content of the file \<^verbatim>\<open>.env\<close>,
  from 0 to 7. It has to begin at the start of a line, and in the text of \<^verbatim>\<open>git show\<close>
  the line begins with \<^verbatim>\<open>+\<close>: for the commit that adds the file \<^verbatim>\<open>scan_commit\<close> runs
  \<^verbatim>\<open>git show\<close>, prints nothing and returns the empty set, no finding for any pattern.
\<close>

theorem added_env_line_not_reported:
  "re_finditer (snd (sensitive_patterns ! 13)) (''FOO=bar'' @ [nl]) = [(0, 7)]
   \<and> check_output
        (example_world [(''1a2b3c4d5e6f7a8b9c0d1e2f3a4b5c6d7e8f9a0b'', Inr show_of_added_env)] 0 [])
        [''git'', ''show'', ''1a2b3c4d5e6f7a8b9c0d1e2f3a4b5c6d7e8f9a0b'']
      = Inr show_of_added_env
   \<and> scan_commit
        (example_world [(''1a2b3c4d5e6f7a8b9c0d1e2f3a4b5c6d7e8f9a0b'', Inr show_of_added_env)] 0 [])
        ''1a2b3c4d5e6f7a8b9c0d1e2f3a4b5c6d7e8f9a0b''
      = ([CheckOutput [''git'', ''show'', ''1a2b3c4d5e6f7a8b9c0d1e2f3a4b5c6d7e8f9a0b'']], Inr [])"
  by code_simp

text \<open>
  Claim C5, as the code has it. \<^verbatim>\<open>scan_commit\<close> collects strings of the form
  \<^verbatim>\<open>[<commit>] Found pattern: <pattern>\<close> in a set, and the string does not mention the
  span of the match. So a commit gets exactly one finding for each catalogue pattern that has
  at least one match in its text, in catalogue order here, however many matches the pattern
  has; patterns are reported independently of one another.
\<close>

theorem scan_commit_one_finding_per_pattern:
  assumes "check_output w [''git'', ''show'', commit_hash] = Inr diff"
  shows "snd (scan_commit w commit_hash)
           = Inr (map (\<lambda>(pattern, r). finding commit_hash pattern)
                    (filter (\<lambda>(pattern, r). re_finditer r diff \<noteq> []) sensitive_patterns))"
  using assms by (simp add: scan_commit_def scan_text_eq)

theorem scan_commit_one_finding_per_pattern_witness:
  "snd (scan_commit (example_world [(''c1'', Inr ''token = abcdefghijklmnop'')] 0 []) ''c1'')
     = Inr (map (\<lambda>(pattern, r). finding ''c1'' pattern)
              (filter (\<lambda>(pattern, r). re_finditer r ''token = abcdefghijklmnop'' \<noteq> [])
                 sensitive_patterns))"
proof -
  have "check_output (example_world [(''c1'', Inr ''token = abcdefghijklmnop'')] 0 [])
          [''git'', ''show'', ''c1''] = Inr ''token = abcdefghijklmnop''"
    by (simp add: example_world_def date_cmd_def)
  then show ?thesis
    by (rule scan_commit_one_finding_per_pattern)
qed

text \<open>
  Claim C5 as stated fails: the text below has two matches of the password pattern, at
  the spans 0 to 24 and 25 to 49, and \<^verbatim>\<open>scan_commit\<close> returns a single finding.
\<close>

theorem scan_commit_two_matches_one_finding:
  "re_finditer (snd (sensitive_patterns ! 8)) ''password: hunter2hunter2 password: hunter3hunter3''
     = [(0, 24), (25, 49)]
   \<and> snd (scan_commit
           (example_world
              [(''c1'', Inr ''password: hunter2hunter2 password: hunter3hunter3'')] 0 [])
           ''c1'')
     = Inr [finding ''c1'' (fst (sensitive_patterns ! 8))]"
  by code_simp

section \<open>Scenario A\<close>

text \<open>
  Claim C6 at the message \<^verbatim>\<open>api_key: abcdef0123456789\<close>. The scanner reports exactly one
  finding, for its first pattern (the API key pattern), and that pattern matches the whole
  message. \<^verbatim>\<open>clean_message\<close> returns the message unchanged: its own API key pattern
  \<^verbatim>\<open>(?i)api[_-]?key[_-]?[\w\-\.]+\<close> wants a word character, a dash or a dot right after
  \<^verbatim>\<open>api_key\<close>, and finds a colon.
\<close>

theorem scenario_A_scanned_but_not_redacted:
  "scan_text commit_hash ''api_key: abcdef0123456789''
     = [finding commit_hash (fst (hd sensitive_patterns))]
   \<and> re_finditer (snd (hd sensitive_patterns)) ''api_key: abcdef0123456789'' = [(0, 25)]
   \<and> clean_message ''api_key: abcdef0123456789'' = ''api_key: abcdef0123456789''"
  by code_simp

section \<open>The walk over the commits\<close>

text \<open>
  The findings of a commit, as \<^verbatim>\<open>scan_commit\<close> returns them: those of its text if
  \<^verbatim>\<open>git show\<close> succeeds, none otherwise. And what the loop appends to \<^verbatim>\<open>all_findings\<close>
  for the commit: nothing if there are no findings, else the findings in the order in which
  the set is iterated.
\<close>

definition readable :: "world \<Rightarrow> string \<Rightarrow> string list" where
  "readable w commit =
     (case check_output w [''git'', ''show'', commit] of
        Inr diff \<Rightarrow> scan_text commit diff
      | Inl e \<Rightarrow> [])"

definition extended :: "world \<Rightarrow> string \<Rightarrow> string list" where
  "extended w commit =
     (if readable w commit \<noteq> [] then set_order w (readable w commit) else [])"

lemma scan_loop_result:
  assumes "\<forall>c \<in> set commits. \<forall>e. check_output w [''git'', ''show'', c] = Inl e
             \<longrightarrow> e = CalledProcessError"
  shows "snd (scan_loop w n i acc commits) = Inr (acc @ concat (map (extended w) commits))"
  using assms
proof (induction commits arbitrary: i acc)
  case Nil
  then show ?case by simp
next
  case (Cons c commits)
  have c: "scan_commit w c = (fst (scan_commit w c), Inr (readable w c))"
    using Cons.prems by (auto simp: scan_commit_def readable_def split: sum.splits)
  have "snd (scan_loop w n (i + 1) acc' commits)
          = Inr (acc' @ concat (map (extended w) commits))" for acc'
    using Cons.IH Cons.prems by simp
  then show ?case
    by (subst scan_loop.simps, subst c) (auto simp: case_prod_unfold extended_def)
qed

lemma scan_loop_reports_error:
  assumes "\<forall>c \<in> set commits. \<forall>e. check_output w [''git'', ''show'', c] = Inl e
             \<longrightarrow> e = CalledProcessError"
    and "c \<in> set commits"
    and "check_output w [''git'', ''show'', c] = Inl CalledProcessError"
  shows "println (''Error scanning commit '' @ c) \<in> set (fst (scan_loop w n i acc commits))"
  using assms(1,2)
proof (induction commits arbitrary: i acc)
  case Nil
  then show ?case by simp
next
  case (Cons d commits)
  obtain ev found where d: "scan_commit w d = (ev, Inr found)"
    using Cons.prems(1)
    by (cases "check_output w [''git'', ''show'', d]") (auto simp: scan_commit_def)
  show ?case
  proof (cases "c = d")
    case True
    then have "println (''Error scanning commit '' @ c) \<in> set ev"
      using d assms(3) by (auto simp: scan_commit_def)
    then show ?thesis
      by (subst scan_loop.simps, subst d) (auto simp: case_prod_unfold)
  next
    case False
    then have "println (''Error scanning commit '' @ c)
                 \<in> set (fst (scan_loop w n (i + 1) acc' commits))" for acc'
      using Cons.IH Cons.prems by simp
    then show ?thesis
      by (subst scan_loop.simps, subst d) (auto simp: case_prod_unfold)
  qed
qed

lemma extended_members:
  assumes "\<forall>xs. set (set_order w xs) = set xs"
  shows "set (concat (map (extended w) commits)) = (\<Union>c \<in> set commits. set (readable w c))"
  using assms by (induction commits) (auto simp: extended_def)

text \<open>
  Claim C7, as the code has it. Suppose \<^verbatim>\<open>git log\<close> succeeds and, for every commit it
  lists, \<^verbatim>\<open>git show\<close> either succeeds or fails with \<^verbatim>\<open>CalledProcessError\<close>, a non-zero
  exit status; no other exception is raised. Then \<^verbatim>\<open>scan_history\<close> returns normally. The
  list it returns holds, commit by commit in the order of the walk, the findings of every
  commit that could be read, those of one commit in the order in which Python iterates the
  set; so, whatever that order is, its members are exactly the findings of the commits that
  could be read. A commit that could not be read makes \<^verbatim>\<open>scan_commit\<close> print
  \<^verbatim>\<open>Error scanning commit <commit>\<close> on the terminal and adds nothing to the list.
\<close>

theorem scan_history_skips_unreadable:
  assumes "check_output w [''git'', ''log'', ''--format=%H''] = Inr out"
    and "\<forall>c \<in> set (splitlines out). \<forall>e. check_output w [''git'', ''show'', c] = Inl e
           \<longrightarrow> e = CalledProcessError"
  shows "snd (scan_history w) = Inr (concat (map (extended w) (splitlines out)))
       \<and> ((\<forall>xs. set (set_order w xs) = set xs)
            \<longrightarrow> set (concat (map (extended w) (splitlines out)))
                = (\<Union>c \<in> set (splitlines out). set (readable w c)))
       \<and> (\<forall>c \<in> set (splitlines out).
            check_output w [''git'', ''show'', c] = Inl CalledProcessError
            \<longrightarrow> println (''Error scanning commit '' @ c) \<in> set (fst (scan_history w))
                \<and> readable w c = [] \<and> extended w c = [])"
proof -
  let ?loop = "scan_loop w (length (splitlines out)) 1 [] (splitlines out)"
  have res: "snd ?loop = Inr (concat (map (extended w) (splitlines out)))"
    using scan_loop_result [OF assms(2)] by simp
  then obtain ev where loop: "?loop = (ev, Inr (concat (map (extended w) (splitlines out))))"
    by (cases ?loop) auto
  have hist: "scan_history w
     = ([println ''Scanning Git history for sensitive data...'',
         CheckOutput [''git'', ''log'', ''--format=%H'']] @ ev
        @ [println ([nl] @ ''Scan complete!'')],
        Inr (concat (map (extended w) (splitlines out))))"
    using loop by (simp add: scan_history_def assms(1))
  have "println (''Error scanning commit '' @ c) \<in> set ev"
    if "c \<in> set (splitlines out)" "check_output w [''git'', ''show'', c] = Inl CalledProcessError"
    for c
    using scan_loop_reports_error [OF assms(2) that, of "length (splitlines out)" 1 "[]"] loop
    by simp
  then have "\<forall>c \<in> set (splitlines out).
            check_output w [''git'', ''show'', c] = Inl CalledProcessError
            \<longrightarrow> println (''Error scanning commit '' @ c) \<in> set (fst (scan_history w))
                \<and> readable w c = [] \<and> extended w c = []"
    by (auto simp: hist readable_def extended_def)
  then show ?thesis
    using extended_members [of w "splitlines out"] by (simp add: hist)
qed

theorem scan_history_skips_unreadable_witness:
  "snd (scan_history (example_world [(''c1'', Inl CalledProcessError),
                                       (''c2'', Inr ''token=abcdefghijklmnop'')] 0 []))
     = Inr [finding ''c2'' (fst (sensitive_patterns ! 13)),
            finding ''c2'' (fst (sensitive_patterns ! 6))]
   \<and> (\<Union>c \<in> {''c1'', ''c2''}.
          set (readable (example_world [(''c1'', Inl CalledProcessError),
                                        (''c2'', Inr ''token=abcdefghijklmnop'')] 0 []) c))
     = {finding ''c2'' (fst (sensitive_patterns ! 13)),
        finding ''c2'' (fst (sensitive_patterns ! 6))}
   \<and> println ''Error scanning commit c1''
        \<in> set (fst (scan_history (example_world [(''c1'', Inl CalledProcessError),
                                       (''c2'', Inr ''token=abcdefghijklmnop'')] 0 [])))"
proof -
  let ?w = "example_world [(''c1'', Inl CalledProcessError),
                           (''c2'', Inr ''token=abcdefghijklmnop'')] 0 []"
  have 1: "check_output ?w [''git'', ''log'', ''--format=%H''] = Inr (''c1'' @ [nl] @ ''c2'' @ [nl])"
    by (simp add: example_world_def)
  have lines: "splitlines (''c1'' @ [nl] @ ''c2'' @ [nl]) = [''c1'', ''c2'']"
    by code_simp
  have c1: "check_output ?w [''git'', ''show'', ''c1''] = Inl CalledProcessError"
    by (simp add: example_world_def date_cmd_def)
  have c2: "check_output ?w [''git'', ''show'', ''c2''] = Inr ''token=abcdefghijklmnop''"
    by (simp add: example_world_def date_cmd_def)
  have 2: "\<forall>c \<in> set (splitlines (''c1'' @ [nl] @ ''c2'' @ [nl])).
             \<forall>e. check_output ?w [''git'', ''show'', c] = Inl e \<longrightarrow> e = CalledProcessError"
    unfolding lines using c1 c2 by simp
  have r2: "scan_text ''c2'' ''token=abcdefghijklmnop''
              = [finding ''c2'' (fst (sensitive_patterns ! 6)),
                 finding ''c2'' (fst (sensitive_patterns ! 13))]"
    by code_simp
  have order: "set_order ?w = rev"
    by (simp add: example_world_def)
  have members: "\<forall>xs. set (set_order ?w xs) = set xs"
    by (simp add: order)
  note walk = scan_history_skips_unreadable [OF 1 2, unfolded lines]
  have a: "snd (scan_history ?w) = Inr (concat (map (extended ?w) [''c1'', ''c2'']))"
    using walk by (rule conjunct1)
  have "set (concat (map (extended ?w) [''c1'', ''c2'']))
           = (\<Union>c \<in> set [''c1'', ''c2'']. set (readable ?w c))"
    using walk [THEN conjunct2, THEN conjunct1] members by (rule mp)
  then have b: "(\<Union>c \<in> {''c1'', ''c2''}. set (readable ?w c))
           = set (concat (map (extended ?w) [''c1'', ''c2'']))"
    by simp
  have "''c1'' \<in> set [''c1'', ''c2'']"
    by simp
  then have c: "println (''Error scanning commit '' @ ''c1'') \<in> set (fst (scan_history ?w))"
    using walk [THEN conjunct2, THEN conjunct2] c1 by blast
  have d: "concat (map (extended ?w) [''c1'', ''c2''])
             = [finding ''c2'' (fst (sensitive_patterns ! 13)),
                finding ''c2'' (fst (sensitive_patterns ! 6))]"
    by (simp add: readable_def extended_def c1 c2 r2 order)
  show ?thesis
    using a c unfolding b d by simp
qed

text \<open>
  Claim C7 as stated fails: of the two commits below the first cannot be read, and the
  findings that \<^verbatim>\<open>scan_history\<close> returns consist of the second commit's finding only.
\<close>

theorem unreadable_commit_not_in_report:
  "check_output (example_world [(''c1'', Inl CalledProcessError),
                                (''c2'', Inr ''password: hunter2hunter2'')] 0 [])
     [''git'', ''show'', ''c1''] = Inl CalledProcessError
   \<and> snd (scan_history (example_world [(''c1'', Inl CalledProcessError),
                                       (''c2'', Inr ''password: hunter2hunter2'')] 0 []))
     = Inr [finding ''c2'' (fst (sensitive_patterns ! 8))]"
  by code_simp

section \<open>Exit status\<close>

text \<open>
  Claim C8, as the code has it. Take a run in which the user lets the scan go ahead and
  answers anything but yes to the question whether to clean. Its exit status is 1 if an
  exception escaped the scan and 0 otherwise; whether the scan produced findings makes no
  difference.
\<close>

theorem scan_only_exit_status:
  assumes "typed w = response # response2 # rest"
    and "lower response = ''yes''"
    and "lower response2 \<noteq> ''yes''"
  shows "exit_status (snd (main w)) = (if isl (snd (scan_history w)) then 1 else 0)"
proof (cases "scan_history w")
  case (Pair ev r)
  then show ?thesis
    using assms by (cases r) (simp_all add: main_def exit_status_def)
qed

theorem scan_only_exit_status_witness:
  "exit_status (snd (main (example_world [(''c1'', Inr ''password: hunter2hunter2'')] 0
                            [''yes'', ''no''])))
     = (if isl (snd (scan_history (example_world [(''c1'', Inr ''password: hunter2hunter2'')] 0
                            [''yes'', ''no'']))) then 1 else 0)"
proof -
  let ?w = "example_world [(''c1'', Inr ''password: hunter2hunter2'')] 0 [''yes'', ''no'']"
  have 1: "typed ?w = ''yes'' # ''no'' # []"
    by (simp add: example_world_def)
  have 2: "lower ''yes'' = ''yes''"
    by code_simp
  have 3: "lower ''no'' \<noteq> ''yes''"
    by code_simp
  show ?thesis
    by (rule scan_only_exit_status [OF 1 2 3])
qed

text \<open>
  Claim C8 as stated fails: in the run below the scan returns a finding, the user declines
  to clean, and the exit status is 0.
\<close>

theorem findings_but_exit_status_zero:
  "snd (scan_history (example_world [(''c1'', Inr ''password: hunter2hunter2'')] 0
                        [''yes'', ''no'']))
     = Inr [finding ''c1'' (fst (sensitive_patterns ! 8))]
   \<and> exit_status (snd (main (example_world [(''c1'', Inr ''password: hunter2hunter2'')] 0
                                [''yes'', ''no'']))) = 0"
  by code_simp

section \<open>The backup and the rewrite\<close>

definition is_filter_repo :: "event \<Rightarrow> bool" where
  "is_filter_repo e =
     (case e of Run args stdin \<Rightarrow> take 2 args = [''git'', ''filter-repo''] | _ \<Rightarrow> False)"

definition is_bundle_create :: "event \<Rightarrow> bool" where
  "is_bundle_create e =
     (case e of Run args stdin \<Rightarrow> take 3 args = [''git'', ''bundle'', ''create''] | _ \<Rightarrow> False)"

definition event_of :: "action \<Rightarrow> event" where
  "event_of a = (case a of Say s \<Rightarrow> println s | Call args stdin \<Rightarrow> Run args stdin)"

lemma perform_all:
  assumes "\<And>args stdin. \<not> isl (run w args stdin)"
  shows "perform w actions = (map event_of actions, Inr ())"
proof (induction actions)
  case Nil
  then show ?case by simp
next
  case (Cons a actions)
  show ?case
  proof (cases a)
    case (Say s)
    then show ?thesis using Cons by (simp add: event_of_def)
  next
    case (Call args stdin)
    then show ?thesis
      using Cons assms [of args stdin] by (cases "run w args stdin") (simp_all add: event_of_def)
  qed
qed

lemma perform_starts_with_call:
  "\<exists>ev. fst (perform w (Call args stdin # actions)) = Run args stdin # ev"
  by (cases "run w args stdin") (auto simp: case_prod_unfold)

lemma perform_stops:
  "Run args stdin \<in> set (fst (perform w actions)) \<Longrightarrow> run w args stdin = Inl e
   \<Longrightarrow> last (fst (perform w actions)) = Run args stdin \<and> snd (perform w actions) = Inl e"
proof (induction w actions rule: perform.induct)
  case (1 w)
  then show ?case by simp
next
  case (2 w s rest)
  obtain ev r where p: "perform w rest = (ev, r)"
    by (cases "perform w rest")
  have "Run args stdin \<in> set ev"
    using "2.prems"(1) p by (simp add: println_def)
  then show ?case
    using "2.IH" "2.prems"(2) p by auto
next
  case (3 w a s rest)
  show ?case
  proof (cases "run w a s")
    case (Inl e')
    then show ?thesis
      using "3.prems" by auto
  next
    case (Inr status)
    obtain ev r where p: "perform w rest = (ev, r)"
      by (cases "perform w rest")
    have "Run args stdin \<in> set ev"
      using "3.prems" Inr p by auto
    then show ?thesis
      using "3.IH" [OF Inr] "3.prems"(2) Inr p by auto
  qed
qed

text \<open>
  Claim C2, as the code has it. In every run of \<^verbatim>\<open>clean_history\<close> no filter-repo
  command is started before the command \<^verbatim>\<open>git bundle create <dir>/backup.bundle --all\<close>
  has been started. A failure of \<^verbatim>\<open>date\<close> or of \<^verbatim>\<open>os.makedirs\<close> ends the function with
  that exception before any \<^verbatim>\<open>git\<close> command is run. A \<^verbatim>\<open>git bundle\<close> that cannot be
  started ends the function with that exception, and the bundle command is the last thing
  that was tried: no filter-repo command is run. More generally a command that cannot be
  started is the last event of the run, and the function ends with its exception. Nothing
  verifies the bundle and nothing looks at the exit status of \<^verbatim>\<open>git bundle\<close>: when
  \<^verbatim>\<open>date\<close> and \<^verbatim>\<open>os.makedirs\<close> succeed and every command can be started, the function
  runs the bundle command and then all fifteen filter-repo commands, whatever exit statuses
  they return.
\<close>

theorem backup_command_first:
  "filter is_filter_repo (takeWhile (\<lambda>e. \<not> is_bundle_create e) (fst (clean_history w))) = []
   \<and> (check_output w date_cmd = Inl e
      \<longrightarrow> clean_history w
           = ([println ''Creating backup of current state...'', CheckOutput date_cmd], Inl e))
   \<and> (check_output w date_cmd = Inr out
        \<and> makedirs w (''git_backup_'' @ strip out) = Some e
      \<longrightarrow> clean_history w
           = ([println ''Creating backup of current state...'', CheckOutput date_cmd,
               Makedirs (''git_backup_'' @ strip out)], Inl e))
   \<and> (check_output w date_cmd = Inr out
        \<and> makedirs w (''git_backup_'' @ strip out) = None
        \<and> run w (bundle_cmd (''git_backup_'' @ strip out)) None = Inl e
      \<longrightarrow> clean_history w
           = ([println ''Creating backup of current state...'', CheckOutput date_cmd,
               Makedirs (''git_backup_'' @ strip out),
               Run (bundle_cmd (''git_backup_'' @ strip out)) None], Inl e))
   \<and> (Run args stdin \<in> set (fst (clean_history w)) \<and> run w args stdin = Inl e
      \<longrightarrow> last (fst (clean_history w)) = Run args stdin \<and> snd (clean_history w) = Inl e)
   \<and> (check_output w date_cmd = Inr out
        \<and> makedirs w (''git_backup_'' @ strip out) = None
        \<and> (\<forall>args stdin. \<not> isl (run w args stdin))
      \<longrightarrow> clean_history w
           = ([println ''Creating backup of current state...'', CheckOutput date_cmd,
               Makedirs (''git_backup_'' @ strip out),
               Run (bundle_cmd (''git_backup_'' @ strip out)) None,
               println ([nl] @ ''Cleaning sensitive files from history...''),
               Run remove_files_cmd None,
               println ([nl] @ ''Removing sensitive data patterns...'')]
              @ map (\<lambda>(pattern, r). Run replace_text_cmd (Some (replace_text_input pattern)))
                  sensitive_patterns,
              Inr ()))"
proof (intro conjI)
  show "filter is_filter_repo
          (takeWhile (\<lambda>e. \<not> is_bundle_create e) (fst (clean_history w))) = []"
  proof (cases "check_output w date_cmd")
    case (Inl e)
    then show ?thesis
      by (simp add: clean_history_def is_filter_repo_def println_def)
  next
    case (Inr out')
    show ?thesis
    proof (cases "makedirs w (''git_backup_'' @ strip out')")
      case (Some e)
      then show ?thesis
        using Inr by (simp add: clean_history_def is_filter_repo_def println_def)
    next
      case None
      let ?rest = "[Say ([nl] @ ''Cleaning sensitive files from history...''),
                    Call remove_files_cmd None,
                    Say ([nl] @ ''Removing sensitive data patterns...'')]
                   @ map (\<lambda>(pattern, r). Call replace_text_cmd
                                             (Some (replace_text_input pattern)))
                       sensitive_patterns"
      obtain ev where ev: "fst (perform w (Call (bundle_cmd (''git_backup_'' @ strip out')) None
                                            # ?rest))
                             = Run (bundle_cmd (''git_backup_'' @ strip out')) None # ev"
        using perform_starts_with_call by blast
      have "fst (clean_history w)
              = [println ''Creating backup of current state...'', CheckOutput date_cmd,
                 Makedirs (''git_backup_'' @ strip out'),
                 Run (bundle_cmd (''git_backup_'' @ strip out')) None] @ ev"
        using Inr None ev by (simp add: clean_history_def case_prod_unfold)
      then show ?thesis
        by (simp add: is_filter_repo_def is_bundle_create_def println_def bundle_cmd_def)
    qed
  qed
next
  show "check_output w date_cmd = Inl e
      \<longrightarrow> clean_history w
           = ([println ''Creating backup of current state...'', CheckOutput date_cmd], Inl e)"
    by (simp add: clean_history_def)
next
  show "check_output w date_cmd = Inr out
        \<and> makedirs w (''git_backup_'' @ strip out) = Some e
      \<longrightarrow> clean_history w
           = ([println ''Creating backup of current state...'', CheckOutput date_cmd,
               Makedirs (''git_backup_'' @ strip out)], Inl e)"
    by (simp add: clean_history_def)
next
  show "check_output w date_cmd = Inr out
        \<and> makedirs w (''git_backup_'' @ strip out) = None
        \<and> run w (bundle_cmd (''git_backup_'' @ strip out)) None = Inl e
      \<longrightarrow> clean_history w
           = ([println ''Creating backup of current state...'', CheckOutput date_cmd,
               Makedirs (''git_backup_'' @ strip out),
               Run (bundle_cmd (''git_backup_'' @ strip out)) None], Inl e)"
    by (simp add: clean_history_def)
next
  show "Run args stdin \<in> set (fst (clean_history w)) \<and> run w args stdin = Inl e
      \<longrightarrow> last (fst (clean_history w)) = Run args stdin \<and> snd (clean_history w) = Inl e"
  proof (intro impI, elim conjE)
    assume a: "Run args stdin \<in> set (fst (clean_history w))" "run w args stdin = Inl e"
    show "last (fst (clean_history w)) = Run args stdin \<and> snd (clean_history w) = Inl e"
    proof (cases "check_output w date_cmd")
      case (Inl e')
      then show ?thesis
        using a(1) by (simp add: clean_history_def println_def)
    next
      case (Inr out')
      show ?thesis
      proof (cases "makedirs w (''git_backup_'' @ strip out')")
        case (Some e')
        then show ?thesis
          using a(1) Inr by (simp add: clean_history_def println_def)
      next
        case None
        let ?actions = "[Call (bundle_cmd (''git_backup_'' @ strip out')) None,
                         Say ([nl] @ ''Cleaning sensitive files from history...''),
                         Call remove_files_cmd None,
                         Say ([nl] @ ''Removing sensitive data patterns...'')]
                        @ map (\<lambda>(pattern, r). Call replace_text_cmd
                                                  (Some (replace_text_input pattern)))
                            sensitive_patterns"
        obtain ev r where p: "perform w ?actions = (ev, r)"
          by (cases "perform w ?actions")
        have hist: "clean_history w
              = ([println ''Creating backup of current state...'', CheckOutput date_cmd,
                  Makedirs (''git_backup_'' @ strip out')] @ ev, r)"
          using Inr None p by (simp add: clean_history_def del: perform.simps)
        have mem: "Run args stdin \<in> set ev"
          using a(1) by (simp add: hist println_def)
        then have "last ev = Run args stdin \<and> r = Inl e"
          using perform_stops [of args stdin w ?actions e] a(2) p by simp
        moreover have "ev \<noteq> []"
          using mem by auto
        ultimately show ?thesis
          by (simp add: hist)
      qed
    qed
  qed
next
  show "check_output w date_cmd = Inr out
        \<and> makedirs w (''git_backup_'' @ strip out) = None
        \<and> (\<forall>args stdin. \<not> isl (run w args stdin))
      \<longrightarrow> clean_history w
           = ([println ''Creating backup of current state...'', CheckOutput date_cmd,
               Makedirs (''git_backup_'' @ strip out),
               Run (bundle_cmd (''git_backup_'' @ strip out)) None,
               println ([nl] @ ''Cleaning sensitive files from history...''),
               Run remove_files_cmd None,
               println ([nl] @ ''Removing sensitive data patterns...'')]
              @ map (\<lambda>(pattern, r). Run replace_text_cmd (Some (replace_text_input pattern)))
                  sensitive_patterns,
              Inr ())"
  proof (intro impI, elim conjE)
    assume a: "check_output w date_cmd = Inr out"
      "makedirs w (''git_backup_'' @ strip out) = None"
      "\<forall>args stdin. \<not> isl (run w args stdin)"
    have all: "perform w actions = (map event_of actions, Inr ())" for actions
      using perform_all a(3) by blast
    show "clean_history w
           = ([println ''Creating backup of current state...'', CheckOutput date_cmd,
               Makedirs (''git_backup_'' @ strip out),
               Run (bundle_cmd (''git_backup_'' @ strip out)) None,
               println ([nl] @ ''Cleaning sensitive files from history...''),
               Run remove_files_cmd None,
               println ([nl] @ ''Removing sensitive data patterns...'')]
              @ map (\<lambda>(pattern, r). Run replace_text_cmd (Some (replace_text_input pattern)))
                  sensitive_patterns,
              Inr ())"
      using a(1,2)
      by (simp add: clean_history_def all event_of_def case_prod_unfold comp_def
            del: perform.simps)
  qed
qed

text \<open>
  Five runs: every command starts and ends with exit status 128; \<^verbatim>\<open>date\<close> cannot be
  started; the backup directory cannot be made; no command can be started; only the command
  that removes the files cannot be started.
\<close>

theorem backup_command_first_witness:
  "clean_history (example_world [] 128 [])
     = ([println ''Creating backup of current state...'', CheckOutput date_cmd,
         Makedirs ''git_backup_20240101_120000'',
         Run (bundle_cmd ''git_backup_20240101_120000'') None,
         println ([nl] @ ''Cleaning sensitive files from history...''),
         Run remove_files_cmd None,
         println ([nl] @ ''Removing sensitive data patterns...'')]
        @ map (\<lambda>(pattern, r). Run replace_text_cmd (Some (replace_text_input pattern)))
            sensitive_patterns,
        Inr ())
   \<and> clean_history ((example_world [] 128 [])\<lparr>check_output := \<lambda>args. Inl OSError\<rparr>)
     = ([println ''Creating backup of current state...'', CheckOutput date_cmd], Inl OSError)
   \<and> clean_history ((example_world [] 128 [])\<lparr>makedirs := \<lambda>d. Some OSError\<rparr>)
     = ([println ''Creating backup of current state...'', CheckOutput date_cmd,
         Makedirs ''git_backup_20240101_120000''], Inl OSError)
   \<and> clean_history ((example_world [] 128 [])\<lparr>run := \<lambda>args stdin. Inl OSError\<rparr>)
     = ([println ''Creating backup of current state...'', CheckOutput date_cmd,
         Makedirs ''git_backup_20240101_120000'',
         Run (bundle_cmd ''git_backup_20240101_120000'') None], Inl OSError)
   \<and> last (fst (clean_history ((example_world [] 128 [])
              \<lparr>run := \<lambda>args stdin. if args = remove_files_cmd then Inl OSError
                                    else Inr 128\<rparr>)))
     = Run remove_files_cmd None
   \<and> snd (clean_history ((example_world [] 128 [])
              \<lparr>run := \<lambda>args stdin. if args = remove_files_cmd then Inl OSError
                                    else Inr 128\<rparr>))
     = Inl OSError"
proof -
  let ?w = "example_world [] 128 []"
  let ?wd = "?w\<lparr>check_output := \<lambda>args. Inl OSError\<rparr>"
  let ?wm = "?w\<lparr>makedirs := \<lambda>d. Some OSError\<rparr>"
  let ?wb = "?w\<lparr>run := \<lambda>args stdin. Inl OSError\<rparr>"
  let ?wr = "?w\<lparr>run := \<lambda>args stdin. if args = remove_files_cmd then Inl OSError
                                     else Inr 128\<rparr>"
  let ?out = "''20240101_120000'' @ [nl]"
  have dir: "''git_backup_'' @ strip (''20240101_120000'' @ [nl]) = ''git_backup_20240101_120000''"
    by code_simp
  have date: "check_output ?w date_cmd = Inr ?out" "check_output ?wm date_cmd = Inr ?out"
    "check_output ?wb date_cmd = Inr ?out"
    by (simp_all add: example_world_def date_cmd_def)
  have mk: "makedirs ?w (''git_backup_'' @ strip ?out) = None"
    "makedirs ?wb (''git_backup_'' @ strip ?out) = None"
    by (simp_all add: example_world_def)
  have started: "\<forall>args stdin. \<not> isl (run ?w args stdin)"
    by (simp add: example_world_def)
  have a: "clean_history ?w
     = ([println ''Creating backup of current state...'', CheckOutput date_cmd,
         Makedirs ''git_backup_20240101_120000'',
         Run (bundle_cmd ''git_backup_20240101_120000'') None,
         println ([nl] @ ''Cleaning sensitive files from history...''),
         Run remove_files_cmd None,
         println ([nl] @ ''Removing sensitive data patterns...'')]
        @ map (\<lambda>(pattern, r). Run replace_text_cmd (Some (replace_text_input pattern)))
            sensitive_patterns,
        Inr ())"
    using backup_command_first [of ?w _ ?out] date(1) mk(1) started unfolding dir
    by blast
  have "check_output ?wd date_cmd = Inl OSError"
    by simp
  then have b: "clean_history ?wd
     = ([println ''Creating backup of current state...'', CheckOutput date_cmd], Inl OSError)"
    using backup_command_first [of ?wd OSError] by blast
  have "makedirs ?wm (''git_backup_'' @ strip ?out) = Some OSError"
    by simp
  then have c: "clean_history ?wm
     = ([println ''Creating backup of current state...'', CheckOutput date_cmd,
         Makedirs ''git_backup_20240101_120000''], Inl OSError)"
    using backup_command_first [of ?wm OSError ?out] date(2) unfolding dir by blast
  have "run ?wb (bundle_cmd (''git_backup_'' @ strip ?out)) None = Inl OSError"
    by simp
  then have d: "clean_history ?wb
     = ([println ''Creating backup of current state...'', CheckOutput date_cmd,
         Makedirs ''git_backup_20240101_120000'',
         Run (bundle_cmd ''git_backup_20240101_120000'') None], Inl OSError)"
    using backup_command_first [of ?wb OSError ?out] date(3) mk(2) unfolding dir by blast
  have "Run remove_files_cmd None \<in> set (fst (clean_history ?wr))"
    by code_simp
  moreover have "run ?wr remove_files_cmd None = Inl OSError"
    by simp
  ultimately have e: "last (fst (clean_history ?wr)) = Run remove_files_cmd None
      \<and> snd (clean_history ?wr) = Inl OSError"
    using backup_command_first [of ?wr OSError _ remove_files_cmd None] by blast
  show ?thesis
    using a b c d e by blast
qed

text \<open>
  Claim C2 as stated fails: below, \<^verbatim>\<open>git bundle create\<close> ends with exit status 128, so
  no backup was written, and the filter-repo commands are run all the same.
\<close>

theorem rewrite_runs_after_failed_backup:
  "run (example_world [] 128 []) (bundle_cmd ''git_backup_20240101_120000'') None = Inr 128
   \<and> Run (bundle_cmd ''git_backup_20240101_120000'') None
        \<in> set (fst (clean_history (example_world [] 128 [])))
   \<and> Run remove_files_cmd None \<in> set (fst (clean_history (example_world [] 128 [])))
   \<and> snd (clean_history (example_world [] 128 [])) = Inr ()"
  by code_simp

section \<open>Removing the sensitive files\<close>

text \<open>
  Modelled from the spec: the history-rewrite engine. It is the external program
  \<^verbatim>\<open>git filter-repo\<close>, which the script only calls. The specification describes it as an
  engine that is given a path predicate and drops the paths the predicate selects from the
  tree of every commit. On the command line the predicate is given by path operands: with
  \<^verbatim>\<open>--invert-paths\<close> a file is dropped when an operand selects it, and an operand selects
  the file it names and the files under the directory it names. A history is the list of its
  commits' trees, a tree the list of its paths with their contents. \<open>path_operands\<close> reads
  the operands that follow the flag the script uses.
\<close>

type_synonym tree = "(string \<times> string) list"

definition path_operands :: "string list \<Rightarrow> string list" where
  "path_operands args = map snd (filter (\<lambda>(flag, operand). flag = ''--paths'') (zip args (tl args)))"

definition selects :: "string \<Rightarrow> string \<Rightarrow> bool" where
  "selects operand path \<longleftrightarrow>
     path = operand \<or> take (length operand + 1) path = operand @ ''/''"

definition invert_paths :: "string list \<Rightarrow> tree list \<Rightarrow> tree list" where
  "invert_paths operands history =
     map (filter (\<lambda>(path, content). \<not> (\<exists>operand \<in> set operands. selects operand path))) history"

text \<open>
  A history of three commits; the first and the third have a file \<^verbatim>\<open>.env\<close> next to a
  readme, the second has the readme only.
\<close>

definition tree_with_env :: tree where
  "tree_with_env = [(''.env'', ''API_KEY=abcdef0123456789''), (''README.md'', ''readme'')]"

definition tree_without_env :: tree where
  "tree_without_env = [(''README.md'', ''readme'')]"

definition example_history :: "tree list" where
  "example_history = [tree_with_env, tree_without_env, tree_with_env]"

text \<open>
  Claim C1 at this history. \<^verbatim>\<open>clean_history\<close> joins the thirteen entries of
  \<^verbatim>\<open>sensitive_files\<close> with spaces and passes the result as a single operand. No file has
  that name, so the rewrite removes nothing: the history is as it was, and \<^verbatim>\<open>.env\<close>, an
  entry of \<^verbatim>\<open>sensitive_files\<close>, is still in the first and the third tree. Had the entries
  been passed one by one, the file would be gone from every tree.
\<close>

theorem env_file_not_removed:
  "path_operands remove_files_cmd
     = [''.env .env.local .env.development .env.production .env.staging credentials.json config.json secrets.json *.key *.pem *.pfx *.p12 *.keystore'']
   \<and> ''.env'' \<in> set sensitive_files
   \<and> invert_paths (path_operands remove_files_cmd) example_history = example_history
   \<and> map (map fst) (invert_paths (path_operands remove_files_cmd) example_history)
       = [map fst tree_with_env, map fst tree_without_env, map fst tree_with_env]
   \<and> ''.env'' \<in> set (map fst tree_with_env)
   \<and> map (map fst) (invert_paths sensitive_files example_history)
       = [map fst tree_without_env, map fst tree_without_env, map fst tree_without_env]"
  by code_simp

section \<open>What a redaction pass can and cannot create\<close>

text \<open>No anchors: whether the pattern matches a text does not depend on what surrounds it.\<close>

fun anchor_free :: "regex \<Rightarrow> bool" where
  "anchor_free (Chr P) = True"
| "anchor_free (Rep P m n) = True"
| "anchor_free (Seq r1 r2) = (anchor_free r1 \<and> anchor_free r2)"
| "anchor_free (Alt r1 r2) = (anchor_free r1 \<and> anchor_free r2)"
| "anchor_free (Opt r) = anchor_free r"
| "anchor_free Eps = True"
| "anchor_free Bol = False"
| "anchor_free Eol = False"

text \<open>The pattern can match the empty text.\<close>

fun nullable :: "regex \<Rightarrow> bool" where
  "nullable (Chr P) = False"
| "nullable (Rep P m n) = (m = 0)"
| "nullable (Seq r1 r2) = (nullable r1 \<and> nullable r2)"
| "nullable (Alt r1 r2) = (nullable r1 \<or> nullable r2)"
| "nullable (Opt r) = True"
| "nullable Eps = True"
| "nullable Bol = True"
| "nullable Eol = True"

text \<open>No character class of the pattern admits the character \<open>c\<close>.\<close>

fun avoids :: "char \<Rightarrow> regex \<Rightarrow> bool" where
  "avoids c (Chr P) = (\<not> P c)"
| "avoids c (Rep P m n) = (\<not> P c)"
| "avoids c (Seq r1 r2) = (avoids c r1 \<and> avoids c r2)"
| "avoids c (Alt r1 r2) = (avoids c r1 \<and> avoids c r2)"
| "avoids c (Opt r) = avoids c r"
| "avoids c Eps = True"
| "avoids c Bol = True"
| "avoids c Eol = True"

text \<open>The text \<open>s\<close> contains a match of the pattern.\<close>

definition matches_in :: "regex \<Rightarrow> string \<Rightarrow> bool" where
  "matches_in r s \<longleftrightarrow>
     (\<exists>pre m post. s = pre @ m @ post \<and> accepts r (bol_after True pre) m post)"

text \<open>
  A pattern is \<open>safe\<close> when no match of it can touch a marker: it has no anchors, does
  not match the empty text, admits no \<^verbatim>\<open>*\<close>, and finds nothing in \<^verbatim>\<open>REMOVED\<close>.
\<close>

definition safe :: "regex \<Rightarrow> bool" where
  "safe r \<longleftrightarrow>
     anchor_free r \<and> \<not> nullable r \<and> avoids CHR ''*'' r \<and> re_finditer r ''REMOVED'' = []"

lemma accepts_anchor_free:
  "anchor_free r \<Longrightarrow> accepts r b w rest = accepts r b' w rest'"
proof (induction r arbitrary: b w rest b' rest')
  case (Seq r1 r2)
  then have 1: "accepts r1 b u (v @ rest) = accepts r1 b' u (v @ rest')" for u v
    by simp
  from Seq have 2: "accepts r2 (bol_after b u) v rest = accepts r2 (bol_after b' u) v rest'"
    for u v by simp
  show ?case by (simp add: 1 2)
next
  case (Alt r1 r2)
  then have "accepts r1 b w rest = accepts r1 b' w rest'"
    "accepts r2 b w rest = accepts r2 b' w rest'" by simp_all
  then show ?case by simp
next
  case (Opt r)
  then have "accepts r b w rest = accepts r b' w rest'" by simp
  then show ?case by simp
qed simp_all

lemma accepts_nonempty: "\<not> nullable r \<Longrightarrow> accepts r b w rest \<Longrightarrow> w \<noteq> []"
proof (induction r arbitrary: b w rest)
  case (Seq r1 r2)
  from Seq.prems(2) obtain u v where uv: "w = u @ v" "accepts r1 b u (v @ rest)"
    "accepts r2 (bol_after b u) v rest" by auto
  from Seq.prems(1) consider "\<not> nullable r1" | "\<not> nullable r2" by auto
  then show ?case
  proof cases
    case 1
    then have "u \<noteq> []" using Seq.IH(1) uv(2) by blast
    then show ?thesis using uv(1) by simp
  next
    case 2
    then have "v \<noteq> []" using Seq.IH(2) uv(3) by blast
    then show ?thesis using uv(1) by simp
  qed
next
  case (Alt r1 r2)
  from Alt.prems have n: "\<not> nullable r1" "\<not> nullable r2" by simp_all
  from Alt.prems(2) consider "accepts r1 b w rest" | "accepts r2 b w rest" by auto
  then show ?case
    using Alt.IH(1) [OF n(1)] Alt.IH(2) [OF n(2)] by cases blast+
qed auto

lemma accepts_avoids: "avoids c r \<Longrightarrow> accepts r b w rest \<Longrightarrow> c \<notin> set w"
  by (induction r arbitrary: b w rest) (auto simp: list_all_iff)

lemma matches_in_anchor_free:
  assumes af: "anchor_free r"
  shows "matches_in r s \<longleftrightarrow> (\<exists>m. sublist m s \<and> accepts r True m [])"
proof -
  show ?thesis
  proof
    assume "matches_in r s"
    then obtain pre m post where "s = pre @ m @ post" "accepts r (bol_after True pre) m post"
      unfolding matches_in_def by blast
    then have "sublist m s" "accepts r True m []"
      using accepts_anchor_free [OF af, of "bol_after True pre" m post True "[]"] by auto
    then show "\<exists>m. sublist m s \<and> accepts r True m []" by blast
  next
    assume "\<exists>m. sublist m s \<and> accepts r True m []"
    then obtain m pre post where "s = pre @ m @ post" "accepts r True m []"
      unfolding sublist_def by blast
    then have "s = pre @ m @ post" "accepts r (bol_after True pre) m post"
      using accepts_anchor_free [OF af, of "bol_after True pre" m post True "[]"] by auto
    then show "matches_in r s"
      unfolding matches_in_def by blast
  qed
qed

lemma matches_in_iff_finditer: "matches_in r s \<longleftrightarrow> re_finditer r s \<noteq> []"
proof
  assume "matches_in r s"
  then obtain pre m post where "s = pre @ m @ post" "accepts r (bol_after True pre) m post"
    unfolding matches_in_def by blast
  from search_finds [OF this] show "re_finditer r s \<noteq> []"
    by (simp add: re_finditer_empty)
next
  assume "re_finditer r s \<noteq> []"
  then obtain pre w b' s' where "search r False True s = Some (pre, w, b', s')"
    by (auto simp: re_finditer_empty)
  from search_Some [OF this] have "s = pre @ w @ s'" "accepts r (bol_after True pre) w s'"
    by simp_all
  then show "matches_in r s"
    unfolding matches_in_def by blast
qed

lemma sublist_without:
  assumes "sublist m (u @ c # v)" and "c \<notin> set m"
  shows "sublist m u \<or> sublist m v"
proof -
  have no_prefix: "m2 = []" if "prefix m2 (c # v)" "set m2 \<subseteq> set m" for m2
    using that assms(2) by (cases m2) auto
  from assms(1) consider "sublist m u" | "sublist m (c # v)"
    | m1 m2 where "m = m1 @ m2" "suffix m1 u" "prefix m2 (c # v)"
    unfolding sublist_append by blast
  then show ?thesis
  proof cases
    case 1
    then show ?thesis by simp
  next
    case 2
    then show ?thesis
      using no_prefix [of m] by (auto simp: sublist_Cons_right)
  next
    case 3
    then have "m2 = []" using no_prefix [of m2] by simp
    then show ?thesis using 3 by auto
  qed
qed

lemma sublist_stars:
  assumes "sublist m (u @ ''***'' @ v)" and "CHR ''*'' \<notin> set m"
  shows "sublist m u \<or> sublist m v"
proof -
  note w = sublist_without [OF _ assms(2)]
  have e: "m = []" if "sublist m []"
    using that by simp
  have "sublist m (u @ CHR ''*'' # (''**'' @ v))"
    using assms(1) by simp
  then consider "sublist m u" | "sublist m ([] @ CHR ''*'' # (''*'' @ v))"
    using w [of u "''**'' @ v"] by auto
  then show ?thesis
  proof cases
    case 1
    then show ?thesis ..
  next
    case 2
    then consider "sublist m []" | "sublist m ([] @ CHR ''*'' # v)"
      using w [of "[]" "''*'' @ v"] by auto
    then show ?thesis
    proof cases
      case 1
      then show ?thesis using e by simp
    next
      case 2
      then have "sublist m [] \<or> sublist m v"
        by (rule w)
      then show ?thesis using e by auto
    qed
  qed
qed

lemma sublist_marker:
  assumes "sublist m (pre @ marker @ t)" and "CHR ''*'' \<notin> set m"
  shows "sublist m pre \<or> sublist m ''REMOVED'' \<or> sublist m t"
proof -
  have "sublist m (pre @ ''***'' @ (''REMOVED'' @ ''***'' @ t))"
    using assms(1) by (simp add: marker_def)
  then have "sublist m pre \<or> sublist m (''REMOVED'' @ ''***'' @ t)"
    using assms(2) by (rule sublist_stars)
  then show ?thesis
    using sublist_stars [OF _ assms(2), of "''REMOVED''" t] by blast
qed

lemma search_skips:
  assumes "search r False b s = Some (pre, w, b', s')" and "pre = x @ z" and "z \<noteq> []"
  shows "ms r (bol_after b x, z @ w @ s') = []"
  using assms
proof (induction s arbitrary: b pre x)
  case Nil
  then show ?case by (auto split: option.splits)
next
  case (Cons c cs)
  have none: "find (\<lambda>(b', s'). False \<longrightarrow> s' \<noteq> c # cs) (ms r (b, c # cs)) = None"
    using Cons.prems by (auto split: option.splits)
  then have empty: "ms r (b, c # cs) = []"
    by (cases "ms r (b, c # cs)") (auto split: if_splits)
  from Cons.prems(1) none obtain pre' where pre': "pre = c # pre'"
    "search r False (c = nl) cs = Some (pre', w, b', s')" by auto
  from search_Some [OF Cons.prems(1)] have s: "c # cs = pre @ w @ s'" by simp
  show ?case
  proof (cases x)
    case Nil
    then show ?thesis using empty s Cons.prems(2) by simp
  next
    case (Cons d x')
    then have "d = c" "pre' = x' @ z" using pre'(1) Cons.prems(2) by simp_all
    then show ?thesis
      using Cons.IH [OF pre'(2) _ Cons.prems(3), of x'] Cons by simp
  qed
qed

lemma matches_in_sublist:
  assumes "anchor_free q" and "matches_in q s" and "sublist s t"
  shows "matches_in q t"
  using assms unfolding matches_in_anchor_free [OF assms(1)]
  by (meson sublist_order.order_trans)

lemma safe_marker:
  assumes "safe q" and "\<not> matches_in q pre" and "\<not> matches_in q t"
  shows "\<not> matches_in q (pre @ marker @ t)"
proof
  assume "matches_in q (pre @ marker @ t)"
  have af: "anchor_free q" using assms(1) by (simp add: safe_def)
  from \<open>matches_in q (pre @ marker @ t)\<close> obtain m where m: "sublist m (pre @ marker @ t)"
    "accepts q True m []"
    unfolding matches_in_anchor_free [OF af] by blast
  have "CHR ''*'' \<notin> set m"
    using accepts_avoids [OF _ m(2)] assms(1) by (simp add: safe_def)
  with m(1) consider "sublist m pre" | "sublist m ''REMOVED''" | "sublist m t"
    using sublist_marker by blast
  then show False
  proof cases
    case 1
    then show False using assms(2) m(2) unfolding matches_in_anchor_free [OF af] by blast
  next
    case 2
    then have "matches_in q ''REMOVED''"
      using m(2) unfolding matches_in_anchor_free [OF af] by blast
    then show False
      using assms(1) by (simp add: safe_def matches_in_iff_finditer)
  next
    case 3
    then show False using assms(3) m(2) unfolding matches_in_anchor_free [OF af] by blast
  qed
qed

lemma sub_creates_no_match:
  assumes "safe q" and "\<not> matches_in q s"
  shows "\<not> matches_in q (re_sub_from r marker ma b s)"
  using assms(2)
proof (induction "2 * length s + (if ma then 0 else 1)" arbitrary: s ma b rule: less_induct)
  case less
  have af: "anchor_free q" using assms(1) by (simp add: safe_def)
  show ?case
  proof (cases "search r ma b s")
    case None
    then show ?thesis
      using less.prems by (subst re_sub_from.simps) simp
  next
    case (Some x)
    obtain pre w b' s' where x: "x = (pre, w, b', s')" by (cases x) auto
    from search_Some [of r ma b s pre w b' s'] Some x
    have s: "s = pre @ w @ s'" and adv: "ma \<and> pre = [] \<longrightarrow> w \<noteq> []" by simp_all
    have smaller: "2 * length s' + (if w = [] then 0 else 1) < 2 * length s + (if ma then 0 else 1)"
      using s adv by (cases pre; cases w) auto
    have "sublist s' s" "sublist pre s"
      unfolding s sublist_def by (rule exI [of _ "pre @ w"], simp) (rule exI [of _ "[]"], simp)
    then have "\<not> matches_in q s'" "\<not> matches_in q pre"
      using less.prems matches_in_sublist [OF af] by blast+
    have t: "\<not> matches_in q (re_sub_from r marker (w = []) b' s')"
      using less.hyps [OF smaller \<open>\<not> matches_in q s'\<close>] .
    have "\<not> matches_in q (pre @ marker @ re_sub_from r marker (w = []) b' s')"
      using safe_marker [OF assms(1) \<open>\<not> matches_in q pre\<close> t] .
    then show ?thesis
      using Some x by (subst re_sub_from.simps) simp
  qed
qed

lemma sub_removes_own_matches:
  assumes "safe r"
  shows "\<not> matches_in r (re_sub_from r marker False b s)"
proof (induction "length s" arbitrary: s b rule: less_induct)
  case less
  have af: "anchor_free r" and nn: "\<not> nullable r" using assms by (simp_all add: safe_def)
  show ?case
  proof (cases "search r False b s")
    case None
    have "\<not> matches_in r s"
    proof
      assume "matches_in r s"
      then obtain pre m post where "s = pre @ m @ post" "accepts r (bol_after True pre) m post"
        unfolding matches_in_def by blast
      then have "s = pre @ m @ post" "accepts r (bol_after b pre) m post"
        using accepts_anchor_free [OF af, of "bol_after True pre" m post "bol_after b pre" post]
        by simp_all
      from search_finds [OF this] None show False by simp
    qed
    then show ?thesis
      using None by (subst re_sub_from.simps) simp
  next
    case (Some x)
    obtain pre w b' s' where x: "x = (pre, w, b', s')" by (cases x) auto
    then have found: "search r False b s = Some (pre, w, b', s')" using Some by simp
    from search_Some [OF found]
    have s: "s = pre @ w @ s'" and acc: "accepts r (bol_after b pre) w s'" by simp_all
    have w: "w \<noteq> []" using accepts_nonempty [OF nn acc] .
    then have "length s' < length s" using s by simp
    then have t: "\<not> matches_in r (re_sub_from r marker False b' s')"
      using less.hyps by simp
    have "\<not> matches_in r pre"
    proof
      assume "matches_in r pre"
      then obtain m where m: "sublist m pre" "accepts r True m []"
        unfolding matches_in_anchor_free [OF af] by blast
      then obtain x' y where pre: "pre = x' @ m @ y" unfolding sublist_def by blast
      have "m \<noteq> []" using accepts_nonempty [OF nn m(2)] .
      then have "ms r (bol_after b x', (m @ y) @ w @ s') = []"
        using search_skips [OF found, of x' "m @ y"] pre by simp
      moreover have "accepts r (bol_after b x') m (y @ w @ s')"
        using accepts_anchor_free [OF af, of True m "[]"] m(2) by simp
      then have "(bol_after (bol_after b x') m, y @ w @ s') \<in> set (ms r (bol_after b x', (m @ y) @ w @ s'))"
        unfolding ms_iff by auto
      ultimately show False by simp
    qed
    then have "\<not> matches_in r (pre @ marker @ re_sub_from r marker False b' s')"
      using safe_marker [OF assms] t by simp
    then show ?thesis
      using found w by (subst re_sub_from.simps) simp
  qed
qed


lemma re_sub_no_match:
  assumes "\<not> matches_in r s"
  shows "re_sub r marker s = s"
proof -
  have "re_finditer r s = []"
    using assms by (simp add: matches_in_iff_finditer)
  then have "search r False True s = None"
    by (simp only: re_finditer_empty)
  then show ?thesis
    unfolding re_sub_def by (subst re_sub_from.simps) simp
qed

lemma clean_keeps_safe:
  assumes "safe q" and "q \<in> set ps \<or> \<not> matches_in q s"
  shows "\<not> matches_in q (foldl (\<lambda>message pattern. re_sub pattern marker message) s ps)"
  using assms(2)
proof (induction ps arbitrary: s)
  case Nil
  then show ?case by simp
next
  case (Cons p ps)
  consider "\<not> matches_in q s" | "q = p" | "q \<in> set ps"
    using Cons.prems by auto
  then have "q \<in> set ps \<or> \<not> matches_in q (re_sub p marker s)"
  proof cases
    case 1
    then show ?thesis
      using sub_creates_no_match [OF assms(1)] by (simp add: re_sub_def)
  next
    case 2
    then show ?thesis
      using sub_removes_own_matches [OF assms(1)] by (simp add: re_sub_def)
  next
    case 3
    then show ?thesis by simp
  qed
  from Cons.IH [OF this] show ?case by simp
qed

lemma clean_fixed:
  assumes "\<And>p. p \<in> set ps \<Longrightarrow> \<not> matches_in p s"
  shows "foldl (\<lambda>message pattern. re_sub pattern marker message) s ps = s"
  using assms by (induction ps) (simp_all add: re_sub_no_match)

lemma safe_patterns:
  "safe p_jwt" "safe p_hex" "safe p_api_key" "safe p_secret_key" "safe p_password"
  "safe p_token" "safe p_sk" "safe p_slack" "safe p_url_cred"
  by code_simp+

lemma clean_blob_eq: "clean_blob blob = blob\<lparr>data := clean_message (data blob)\<rparr>"
proof -
  have "foldl (\<lambda>blob pattern. blob\<lparr>data := re_sub pattern marker (data blob)\<rparr>) blob ps
          = blob\<lparr>data := foldl (\<lambda>message pattern. re_sub pattern marker message) (data blob) ps\<rparr>"
    for ps
    by (induction ps arbitrary: blob) simp_all
  then show ?thesis
    by (simp add: clean_blob_def clean_message_def)
qed

lemma clean_blob_data: "data (clean_blob blob) = clean_message (data blob)"
  by (simp add: clean_blob_eq)

text \<open>
  Claim C3, as the code has it. The marker \<^verbatim>\<open>***REMOVED***\<close> matches none of the ten
  patterns, and redacting twice gives the same as redacting once, for a message and for the
  data of a blob, for every content whose redacted form has no match of the ninth pattern
  \<^verbatim>\<open>https?://[^/\s]+/x-[a-zA-Z0-9_\-]{24}\<close>. That pattern is the only one with a character
  class that admits \<^verbatim>\<open>*\<close>, so it alone can match across a marker that a pass has put in.
\<close>

theorem redaction_idempotent_unless_url:
  "list_all (\<lambda>pattern. re_finditer pattern marker = []) patterns
   \<and> (re_finditer p_url_token (clean_message s) = []
        \<longrightarrow> clean_message (clean_message s) = clean_message s
            \<and> (data blob = s \<longrightarrow> clean_blob (clean_blob blob) = clean_blob blob))"
proof
  show "list_all (\<lambda>pattern. re_finditer pattern marker = []) patterns"
    by code_simp
next
  have "clean_message (clean_message s) = clean_message s"
    if url: "re_finditer p_url_token (clean_message s) = []"
  proof -
    have "\<not> matches_in p (clean_message s)" if "p \<in> set patterns" for p
    proof (cases "p = p_url_token")
      case True
      then show ?thesis using url by (simp add: matches_in_iff_finditer)
    next
      case False
      then have "safe p"
        using that safe_patterns by (auto simp: patterns_def)
      then show ?thesis
        unfolding clean_message_def using clean_keeps_safe that by blast
    qed
    then show "clean_message (clean_message s) = clean_message s"
      using clean_fixed [of patterns "clean_message s"] by (simp add: clean_message_def)
  qed
  then show "re_finditer p_url_token (clean_message s) = []
        \<longrightarrow> clean_message (clean_message s) = clean_message s
            \<and> (data blob = s \<longrightarrow> clean_blob (clean_blob blob) = clean_blob blob)"
    by (simp add: clean_blob_eq)
qed

theorem redaction_idempotent_unless_url_witness:
  "re_finditer p_url_token (clean_message ''password_hunter2 and token-abc'') = []
   \<and> clean_message (clean_message ''password_hunter2 and token-abc'')
       = clean_message ''password_hunter2 and token-abc''"
proof -
  have "re_finditer p_url_token (clean_message ''password_hunter2 and token-abc'') = []"
    by code_simp
  then show ?thesis
    using redaction_idempotent_unless_url [of "''password_hunter2 and token-abc''"] by blast
qed

text \<open>
  Claim C3 as stated fails. In the content below the ninth pattern replaces the inner
  address, which leaves \<^verbatim>\<open>http://***REMOVED***/x-AAAAAAAAAAAAAAAAAAAAAAAA\<close>; a second
  redaction matches that as a whole and leaves \<^verbatim>\<open>***REMOVED***\<close>.
\<close>

theorem redaction_not_idempotent:
  "clean_message
     (clean_message ''http://http://a/x-AAAAAAAAAAAAAAAAAAAAAAAA/x-AAAAAAAAAAAAAAAAAAAAAAAA'')
   \<noteq> clean_message ''http://http://a/x-AAAAAAAAAAAAAAAAAAAAAAAA/x-AAAAAAAAAAAAAAAAAAAAAAAA''"
  by code_simp

section \<open>Long hexadecimal runs\<close>

lemma hex_run_matches:
  assumes "s = pre @ digits @ post" and "list_all hex_digit digits" and "32 \<le> length digits"
  shows "matches_in p_hex s"
  unfolding matches_in_def p_hex_def using assms by auto

lemma rep_all:
  "list_all P s \<Longrightarrow> m \<le> length s \<Longrightarrow> \<exists>rest. rep P m None b s = (bol_after b s, []) # rest"
proof (induction s arbitrary: m b)
  case Nil
  then show ?case by simp
next
  case (Cons c cs)
  from Cons.prems have "list_all P cs" "m - 1 \<le> length cs"
    by auto
  from Cons.IH [OF this] obtain rest
    where "rep P (m - 1) None (c = nl) cs = (bol_after (c = nl) cs, []) # rest"
    by blast
  then show ?case using Cons.prems by simp
qed

lemma jwt_needs_y:
  assumes "accepts p_jwt b m rest"
  shows "CHR ''y'' \<in> set m"
  using assms by (auto simp: p_jwt_def seqs_def lit_def)

lemma hex_run_only:
  assumes "list_all hex_digit digits" and "32 \<le> length digits"
  shows "clean_message digits = marker"
proof -
  have "\<not> hex_digit CHR ''y''"
    by code_simp
  then have y: "CHR ''y'' \<notin> set digits"
    using assms(1) by (auto simp: list_all_iff)
  have "\<not> matches_in p_jwt digits"
  proof
    assume "matches_in p_jwt digits"
    then obtain pre m post where "digits = pre @ m @ post" "accepts p_jwt (bol_after True pre) m post"
      unfolding matches_in_def by blast
    then show False using jwt_needs_y y by fastforce
  qed
  then have 1: "re_sub p_jwt marker digits = digits"
    by (rule re_sub_no_match)
  obtain c cs where digits: "digits = c # cs"
    using assms(2) by (cases digits) auto
  obtain rest where "rep hex_digit 32 None True digits = (bol_after True digits, []) # rest"
    using rep_all [OF assms] by blast
  then have "search p_hex False True digits = Some ([], digits, (bol_after True digits, []))"
    unfolding digits by (simp add: p_hex_def)
  moreover have "re_sub_from p_hex marker False (bol_after True digits) [] = []"
    by (subst re_sub_from.simps) (simp add: p_hex_def)
  ultimately have 2: "re_sub p_hex marker digits = marker"
    unfolding re_sub_def by (subst re_sub_from.simps) (simp add: digits)
  have 3: "foldl (\<lambda>message pattern. re_sub pattern marker message) marker
             [p_api_key, p_secret_key, p_password, p_token, p_sk, p_slack, p_url_token,
              p_url_cred] = marker"
    by code_simp
  show ?thesis
    unfolding clean_message_def patterns_def using 3 by (simp add: 1 2)
qed

text \<open>
  Claim C10, as the code has it. Let a byte string contain a run of 32 or more characters
  from \<^verbatim>\<open>[a-f0-9]\<close>. Then what \<^verbatim>\<open>clean_message\<close> returns, and the data that
  \<^verbatim>\<open>clean_blob\<close> leaves in a blob holding the string, differ from the string, and the
  result contains no run of 32 or more such characters any more. A content that is such a run
  and nothing else, like a 40 character commit id, becomes exactly the marker. So content
  without any credential is changed by the rewrite.
\<close>

theorem hex_runs_are_redacted:
  assumes "s = pre @ digits @ post" and "list_all hex_digit digits" and "32 \<le> length digits"
  shows "clean_message s \<noteq> s
       \<and> (data blob = s \<longrightarrow> data (clean_blob blob) \<noteq> s)
       \<and> \<not> (\<exists>pre' digits' post'. clean_message s = pre' @ digits' @ post'
                \<and> list_all hex_digit digits' \<and> 32 \<le> length digits')
       \<and> clean_message digits = marker"
proof -
  have gone: "\<not> matches_in p_hex (clean_message s)"
    unfolding clean_message_def using clean_keeps_safe [OF safe_patterns(2), of patterns s]
    by (simp add: patterns_def)
  have here: "matches_in p_hex s"
    using hex_run_matches [OF assms] .
  have "clean_message s \<noteq> s"
    using gone here by auto
  moreover have "data blob = s \<longrightarrow> data (clean_blob blob) \<noteq> s"
    using \<open>clean_message s \<noteq> s\<close> by (simp add: clean_blob_data)
  moreover have "\<not> (\<exists>pre' digits' post'. clean_message s = pre' @ digits' @ post'
                \<and> list_all hex_digit digits' \<and> 32 \<le> length digits')"
    using gone hex_run_matches by blast
  moreover have "clean_message digits = marker"
    using hex_run_only [OF assms(2,3)] .
  ultimately show ?thesis by blast
qed

theorem hex_runs_are_redacted_witness:
  "clean_message ''see 0123456789abcdef0123456789abcdef01234567 for details''
     \<noteq> ''see 0123456789abcdef0123456789abcdef01234567 for details''
   \<and> clean_message ''0123456789abcdef0123456789abcdef01234567'' = marker"
proof -
  have 1: "''see 0123456789abcdef0123456789abcdef01234567 for details''
             = ''see '' @ ''0123456789abcdef0123456789abcdef01234567'' @ '' for details''"
    by simp
  have 2: "list_all hex_digit ''0123456789abcdef0123456789abcdef01234567''"
    by code_simp
  have 3: "32 \<le> length ''0123456789abcdef0123456789abcdef01234567''"
    by simp
  show ?thesis
    using hex_runs_are_redacted [OF 1 2 3] by blast
qed

text \<open>
  Claim C10 as stated fails in one respect: the run is not always replaced by the marker.
  The first pattern is applied before the hexadecimal one and can take a part of the run.
  Below, the run of 32 characters ends in the \<^verbatim>\<open>e\<close> of \<^verbatim>\<open>eyJa.b.c\<close>; that token is
  replaced, and 31 characters of the run stay.
\<close>

theorem hex_run_partly_kept:
  "list_all hex_digit ''0000000000000000000000000000000e''
   \<and> length ''0000000000000000000000000000000e'' = 32
   \<and> clean_message (''0000000000000000000000000000000e'' @ ''yJa.b.c'')
       = ''0000000000000000000000000000000'' @ marker"
  by code_simp

end
